theory Spec2Isabelle
  imports Complex_Main
begin

section \<open>Vector2D\<close>

text \<open>
  The C++ class \<open>Vector2D\<close> holds two doubles. Doubles are modelled as reals (rounding and
  overflow are not modelled). The record is polymorphic in the coordinate type because the
  projectile of \<open>SnowballStrategy\<close> is the only place where arithmetic can leave the finite
  numbers (a square root of a negative number, a division by zero); its coordinates use the
  extended type \<open>dbl\<close> defined further down, everything else uses \<open>real\<close>.
\<close>

record 'a Vector2D =
  x :: 'a
  y :: 'a

type_synonym vec = "real Vector2D"

definition vec :: "real \<Rightarrow> real \<Rightarrow> vec" where
  "vec a b = \<lparr> x = a, y = b \<rparr>"

definition vadd :: "vec \<Rightarrow> vec \<Rightarrow> vec" where
  "vadd u v = vec (x u + x v) (y u + y v)"

definition vsub :: "vec \<Rightarrow> vec \<Rightarrow> vec" where
  "vsub u v = vec (x u - x v) (y u - y v)"

definition vmul :: "vec \<Rightarrow> real \<Rightarrow> vec" where
  "vmul u k = vec (x u * k) (y u * k)"

text \<open>\<open>Vector2D::operator/\<close>: a zero scalar returns the vector itself.\<close>

definition vdiv :: "vec \<Rightarrow> real \<Rightarrow> vec" where
  "vdiv u k = (if k = 0 then u else vec (x u / k) (y u / k))"

text \<open>\<open>Vector2D::operator/=\<close>: the in-place form, the new value of \<open>*this\<close>.\<close>

definition vdiv_assign :: "vec \<Rightarrow> real \<Rightarrow> vec" where
  "vdiv_assign u k = (if k \<noteq> 0 then u\<lparr> x := x u / k, y := y u / k \<rparr> else u)"

text \<open>\<open>Vector2D::operator==\<close> compares with the tolerance \<open>EPSILON = 1e-6\<close>.\<close>

definition EPSILON :: real where
  "EPSILON = 1 / 1000000"

definition veq :: "vec \<Rightarrow> vec \<Rightarrow> bool" where
  "veq u v \<longleftrightarrow> \<bar>x u - x v\<bar> < EPSILON \<and> \<bar>y u - y v\<bar> < EPSILON"

definition vlength :: "vec \<Rightarrow> real" where
  "vlength u = sqrt (x u * x u + y u * y u)"

definition lengthSquared :: "vec \<Rightarrow> real" where
  "lengthSquared u = x u * x u + y u * y u"

definition distance :: "vec \<Rightarrow> vec \<Rightarrow> real" where
  "distance u v = vlength (vsub u v)"

definition distanceSquared :: "vec \<Rightarrow> vec \<Rightarrow> real" where
  "distanceSquared u v = lengthSquared (vsub u v)"

definition dot :: "vec \<Rightarrow> vec \<Rightarrow> real" where
  "dot u v = x u * x v + y u * y v"

section \<open>Segment\<close>

text \<open>
  \<open>std::fmod a b\<close> is \<open>a - n * b\<close> where \<open>n\<close> is the quotient \<open>a / b\<close> truncated
  towards zero; the result has the sign of \<open>a\<close>.
\<close>

definition trunc :: "real \<Rightarrow> int" where
  "trunc r = (if 0 \<le> r then \<lfloor>r\<rfloor> else \<lceil>r\<rceil>)"

definition fmod :: "real \<Rightarrow> real \<Rightarrow> real" where
  "fmod a b = a - of_int (trunc (a / b)) * b"

record Segment =
  id :: string
  start :: vec
  length :: real
  angle :: real
  minAngle :: real
  maxAngle :: real

definition getEnd :: "Segment \<Rightarrow> vec" where
  "getEnd s = vec (x (start s) + length s * cos (angle s))
                  (y (start s) + length s * sin (angle s))"

definition setStart :: "vec \<Rightarrow> Segment \<Rightarrow> Segment" where
  "setStart p s = s\<lparr> start := p \<rparr>"

text \<open>The first step of \<open>Segment::clampAngle\<close>: the angle brought into \<open>[0, 2\<pi>)\<close>.\<close>

definition normalizeAngle :: "real \<Rightarrow> real" where
  "normalizeAngle a =
     (let n = fmod a (2 * pi) in if n < 0 then n + 2 * pi else n)"

definition clampAngle :: "Segment \<Rightarrow> real \<Rightarrow> real" where
  "clampAngle s angleToClamp =
     (let normalizedAngle = normalizeAngle angleToClamp in
      if minAngle s \<le> maxAngle s then
        min (max normalizedAngle (minAngle s)) (maxAngle s)
      else if normalizedAngle \<ge> minAngle s \<or> normalizedAngle \<le> maxAngle s then
        normalizedAngle
      else
        (let distToMin = min \<bar>normalizedAngle - minAngle s\<bar>
                             \<bar>normalizedAngle - (minAngle s - 2 * pi)\<bar>;
             distToMax = min \<bar>normalizedAngle - maxAngle s\<bar>
                             \<bar>normalizedAngle - (maxAngle s + 2 * pi)\<bar>
         in if distToMin \<le> distToMax then minAngle s else maxAngle s))"

text \<open>
  The same computation with the two features of double arithmetic that the reals hide:
  \<open>period\<close> stands for the double \<open>2 * M_PI\<close>, and \<open>fl\<close> for the rounding of a sum or
  difference of doubles. \<open>std::fmod\<close>, the comparisons, \<open>std::min\<close>, \<open>std::max\<close> and
  \<open>std::abs\<close> are exact. With the period \<open>2\<pi>\<close> and no rounding this is \<open>clampAngle\<close>.
  A rounding is admitted when it keeps a sum between 0 and the period in the closed
  interval from 0 to the period, as rounding to nearest does, both ends being doubles.
\<close>

definition normalizeAngleWith :: "real \<Rightarrow> (real \<Rightarrow> real) \<Rightarrow> real \<Rightarrow> real" where
  "normalizeAngleWith period fl a =
     (let n = fmod a period in if n < 0 then fl (n + period) else n)"

definition clampAngleWith :: "real \<Rightarrow> (real \<Rightarrow> real) \<Rightarrow> Segment \<Rightarrow> real \<Rightarrow> real" where
  "clampAngleWith period fl s angleToClamp =
     (let normalizedAngle = normalizeAngleWith period fl angleToClamp in
      if minAngle s \<le> maxAngle s then
        min (max normalizedAngle (minAngle s)) (maxAngle s)
      else if normalizedAngle \<ge> minAngle s \<or> normalizedAngle \<le> maxAngle s then
        normalizedAngle
      else
        (let distToMin = min \<bar>fl (normalizedAngle - minAngle s)\<bar>
                             \<bar>fl (normalizedAngle - fl (minAngle s - period))\<bar>;
             distToMax = min \<bar>fl (normalizedAngle - maxAngle s)\<bar>
                             \<bar>fl (normalizedAngle - fl (maxAngle s + period))\<bar>
         in if distToMin \<le> distToMax then minAngle s else maxAngle s))"

definition roundsInto :: "real \<Rightarrow> (real \<Rightarrow> real) \<Rightarrow> bool" where
  "roundsInto period fl \<longleftrightarrow> (\<forall>v. 0 < v \<and> v < period \<longrightarrow> 0 \<le> fl v \<and> fl v \<le> period)"

text \<open>
  \<open>Segment::rotateTo\<close> stores the clamped angle and returns whether the clamped angle is
  the requested one; \<open>Segment::rotate\<close> adds the delta to the current angle first.
\<close>

definition rotateTo :: "Segment \<Rightarrow> real \<Rightarrow> bool \<times> Segment" where
  "rotateTo s targetAngle =
     (let clampedAngle = clampAngle s targetAngle;
          wasConstrained = (clampedAngle \<noteq> targetAngle)
      in (\<not> wasConstrained, s\<lparr> angle := clampedAngle \<rparr>))"

definition rotate :: "Segment \<Rightarrow> real \<Rightarrow> bool \<times> Segment" where
  "rotate s deltaAngle = rotateTo s (angle s + deltaAngle)"

definition move :: "Segment \<Rightarrow> vec \<Rightarrow> Segment" where
  "move s displacement = s\<lparr> start := vadd (start s) displacement \<rparr>"

text \<open>
  \<open>Segment::closestPointTo\<close> projects the point on the segment and clamps the parameter
  to \<open>[0, 1]\<close>. The divisor \<open>lengthSquared\<close> is zero only for a segment of length zero,
  where the segment vector is zero and every parameter gives the start point.
\<close>

definition closestPointTo :: "Segment \<Rightarrow> vec \<Rightarrow> vec" where
  "closestPointTo s point =
     (let segmentStart = start s;
          segmentEnd = getEnd s;
          segmentVec = vsub segmentEnd segmentStart;
          pointVec = vsub point segmentStart;
          projection = dot pointVec segmentVec / lengthSquared segmentVec;
          projection' = max 0 (min 1 projection)
      in vadd segmentStart (vmul segmentVec projection'))"

definition distanceToPoint :: "Segment \<Rightarrow> vec \<Rightarrow> real" where
  "distanceToPoint s point = distance point (closestPointTo s point)"

definition isStartContactingGround :: "Segment \<Rightarrow> real \<Rightarrow> real \<Rightarrow> bool" where
  "isStartContactingGround s level threshold \<longleftrightarrow> \<bar>y (start s) - level\<bar> \<le> threshold"

definition isEndContactingGround :: "Segment \<Rightarrow> real \<Rightarrow> real \<Rightarrow> bool" where
  "isEndContactingGround s level threshold \<longleftrightarrow> \<bar>y (getEnd s) - level\<bar> \<le> threshold"

section \<open>Circle\<close>

record Circle =
  center :: vec
  radius :: real
  velocity :: vec
  gravity :: real
  hasPhysics :: bool

definition contains :: "Circle \<Rightarrow> vec \<Rightarrow> bool" where
  "contains c point \<longleftrightarrow> distanceSquared (center c) point \<le> radius c * radius c"

section \<open>Body\<close>

text \<open>
  \<open>Body\<close> keeps two \<open>std::map\<close>s keyed by name: the segments and, per parent, the vector
  of its children. Both are association lists in the map's key order; a \<open>std::map\<close> holds
  each key once. A segment is reached through its name, so a write through the pointer
  that \<open>getSegment\<close> returns is \<open>modifySegment\<close> on the list.
\<close>

record Body =
  basePosition :: vec
  groundLevel :: real
  segments :: "(string \<times> Segment) list"
  connections :: "(string \<times> string list) list"

definition getSegment :: "Body \<Rightarrow> string \<Rightarrow> Segment option" where
  "getSegment b name = map_of (segments b) name"

definition modifySegment :: "string \<Rightarrow> (Segment \<Rightarrow> Segment) \<Rightarrow> Body \<Rightarrow> Body" where
  "modifySegment name f b =
     b\<lparr> segments := map (\<lambda>(k, s). if k = name then (k, f s) else (k, s)) (segments b) \<rparr>"

definition getSegmentNames :: "Body \<Rightarrow> string list" where
  "getSegmentNames b = map fst (segments b)"

text \<open>\<open>Body::isEndPoint\<close>: the name is not a key of \<open>connections\<close>.\<close>

definition isEndPoint :: "Body \<Rightarrow> string \<Rightarrow> bool" where
  "isEndPoint b segmentName \<longleftrightarrow> map_of (connections b) segmentName = None"

text \<open>
  The scan of \<open>moveBaseTo\<close> and \<open>updateSegments\<close> over all child vectors: the name occurs
  as a child of some parent.
\<close>

definition isChild :: "Body \<Rightarrow> string \<Rightarrow> bool" where
  "isChild b name \<longleftrightarrow> list_ex (\<lambda>(parent, children). name \<in> set children) (connections b)"

text \<open>
  \<open>Body::updateChildSegments\<close> recurses through the children; the source does not detect
  a cycle among the connections and then recurses without end. The first argument bounds
  the depth of the recursion, and \<open>None\<close> is the call that does not return within it.
  The pointer \<open>parentSegment\<close> is read again for every child, so the model reads the
  parent from the current state; the parent is still there, since no operation removes a
  segment.
\<close>

fun updateChildSegments :: "nat \<Rightarrow> string \<Rightarrow> Body \<Rightarrow> Body option"
  and updateChildren :: "nat \<Rightarrow> string \<Rightarrow> string list \<Rightarrow> Body \<Rightarrow> Body option" where
  "updateChildSegments 0 parentName b = None"
| "updateChildSegments (Suc n) parentName b =
     (case map_of (connections b) parentName of
        None \<Rightarrow> Some b
      | Some children \<Rightarrow>
          (case getSegment b parentName of
             None \<Rightarrow> Some b
           | Some parentSegment \<Rightarrow> updateChildren n parentName children b))"
| "updateChildren n parentName [] b = Some b"
| "updateChildren n parentName (childName # rest) b =
     (case getSegment b childName of
        None \<Rightarrow> updateChildren n parentName rest b
      | Some childSegment \<Rightarrow>
          (case getSegment b parentName of
             None \<Rightarrow> updateChildren n parentName rest b
           | Some parentSegment \<Rightarrow>
               (case updateChildSegments n childName
                       (modifySegment childName (setStart (getEnd parentSegment)) b) of
                  None \<Rightarrow> None
                | Some b' \<Rightarrow> updateChildren n parentName rest b')))"

text \<open>
  \<open>Body::rotateSegment\<close> and \<open>Body::rotateSegmentTo\<close>: the segment is rotated through its
  pointer, and the children are updated only when the rotation reports success.
\<close>

definition rotateSegment :: "nat \<Rightarrow> string \<Rightarrow> real \<Rightarrow> Body \<Rightarrow> (bool \<times> Body) option" where
  "rotateSegment n name deltaAngle b =
     (case getSegment b name of
        None \<Rightarrow> Some (False, b)
      | Some segment \<Rightarrow>
          (let (success, segment') = rotate segment deltaAngle;
               b' = modifySegment name (\<lambda>_. segment') b
           in if success then
                (case updateChildSegments n name b' of
                   None \<Rightarrow> None
                 | Some b'' \<Rightarrow> Some (success, b''))
              else Some (success, b')))"

definition rotateSegmentTo :: "nat \<Rightarrow> string \<Rightarrow> real \<Rightarrow> Body \<Rightarrow> (bool \<times> Body) option" where
  "rotateSegmentTo n name targetAngle b =
     (case getSegment b name of
        None \<Rightarrow> Some (False, b)
      | Some segment \<Rightarrow>
          (let (success, segment') = rotateTo segment targetAngle;
               b' = modifySegment name (\<lambda>_. segment') b
           in if success then
                (case updateChildSegments n name b' of
                   None \<Rightarrow> None
                 | Some b'' \<Rightarrow> Some (success, b''))
              else Some (success, b')))"

text \<open>
  \<open>Body::moveBaseTo\<close>: every segment that is nobody's child is translated by the
  displacement and its children are updated; the loop runs over the segment names in
  key order.
\<close>

fun moveRoots :: "nat \<Rightarrow> vec \<Rightarrow> string list \<Rightarrow> Body \<Rightarrow> Body option" where
  "moveRoots n displacement [] b = Some b"
| "moveRoots n displacement (name # rest) b =
     (if isChild b name then moveRoots n displacement rest b
      else
        (case updateChildSegments n name
                (modifySegment name (\<lambda>s. setStart (vadd (start s) displacement) s) b) of
           None \<Rightarrow> None
         | Some b' \<Rightarrow> moveRoots n displacement rest b'))"

definition moveBaseTo :: "nat \<Rightarrow> vec \<Rightarrow> Body \<Rightarrow> Body option" where
  "moveBaseTo n newBase b =
     (let displacement = vsub newBase (basePosition b);
          b' = b\<lparr> basePosition := newBase \<rparr>
      in moveRoots n displacement (getSegmentNames b') b')"

text \<open>
  \<open>Body::updateSegments\<close>: the roots are collected first, then each root is pinned to the
  base position and its children are updated.
\<close>

fun layoutRoots :: "nat \<Rightarrow> string list \<Rightarrow> Body \<Rightarrow> Body option" where
  "layoutRoots n [] b = Some b"
| "layoutRoots n (rootName # rest) b =
     (case updateChildSegments n rootName
             (modifySegment rootName (setStart (basePosition b)) b) of
        None \<Rightarrow> None
      | Some b' \<Rightarrow> layoutRoots n rest b')"

definition rootSegments :: "Body \<Rightarrow> string list" where
  "rootSegments b = filter (\<lambda>name. \<not> isChild b name) (getSegmentNames b)"

definition updateSegments :: "nat \<Rightarrow> Body \<Rightarrow> Body option" where
  "updateSegments n b = layoutRoots n (rootSegments b) b"

text \<open>Ground contacts; the threshold of both tests defaults to \<open>1.0\<close>.\<close>

definition countGroundContacts :: "Body \<Rightarrow> int" where
  "countGroundContacts b =
     sum_list (map (\<lambda>(name, segment).
        (if isStartContactingGround segment (groundLevel b) 1 then 1 else 0)
        + (if isEndContactingGround segment (groundLevel b) 1 then 1 else 0)) (segments b))"

definition hasMinimumGroundContacts :: "Body \<Rightarrow> int \<Rightarrow> bool" where
  "hasMinimumGroundContacts b minContacts \<longleftrightarrow> countGroundContacts b \<ge> minContacts"

text \<open>
  \<open>Body::getSegmentsTouchingObject\<close> collects, in key order, the end point segments whose
  end lies in the circle or whose distance to the centre is at most the radius.
\<close>

definition touchesObject :: "Circle \<Rightarrow> Segment \<Rightarrow> bool" where
  "touchesObject object segment \<longleftrightarrow>
     contains object (getEnd segment) \<or> distanceToPoint segment (center object) \<le> radius object"

fun getSegmentsTouchingObject_loop :: "Body \<Rightarrow> Circle \<Rightarrow> (string \<times> Segment) list \<Rightarrow> string list" where
  "getSegmentsTouchingObject_loop b object [] = []"
| "getSegmentsTouchingObject_loop b object ((name, segment) # rest) =
     (if isEndPoint b name then
        (if touchesObject object segment
         then name # getSegmentsTouchingObject_loop b object rest
         else getSegmentsTouchingObject_loop b object rest)
      else getSegmentsTouchingObject_loop b object rest)"

definition getSegmentsTouchingObject :: "Body \<Rightarrow> Circle \<Rightarrow> string list" where
  "getSegmentsTouchingObject b object = getSegmentsTouchingObject_loop b object (segments b)"

text \<open>
  \<open>Body::canReachObject\<close> compares the \<open>size_t\<close> count with
  \<open>static_cast<size_t>(minTouchingPoints)\<close>: the conversion of the \<open>int\<close> to the unsigned
  64-bit type is the value modulo \<open>2^64\<close>.
\<close>

definition size_t_of_int :: "int \<Rightarrow> nat" where
  "size_t_of_int i = nat (i mod 2 ^ 64)"

definition canReachObject :: "Body \<Rightarrow> Circle \<Rightarrow> int \<Rightarrow> bool" where
  "canReachObject b object minTouchingPoints \<longleftrightarrow>
     List.length (getSegmentsTouchingObject b object) \<ge> size_t_of_int minTouchingPoints"

text \<open>\<open>Body::getSegmentLines\<close>: the start and the end of every segment, in key order.\<close>

definition getSegmentLines :: "Body \<Rightarrow> (vec \<times> vec) list" where
  "getSegmentLines b = map (\<lambda>(name, segment). (start segment, getEnd segment)) (segments b)"

section \<open>WalkerStrategy\<close>

text \<open>
  Modelled from the spec: \<open>Vector2D::magnitude\<close> and the value-returning
  \<open>Vector2D::normalize\<close> are declared in the header of the strategy variant, whose
  implementation file is not among the sources. The header documents \<open>magnitude\<close> as an
  alias of \<open>length\<close>; \<open>normalize\<close> divides both components by the length unless the
  length is zero, as the implementation of the earlier variant does, and yields the vector.
\<close>

definition magnitude :: "vec \<Rightarrow> real" where
  "magnitude u = vlength u"

definition normalize :: "vec \<Rightarrow> vec" where
  "normalize u = (let len = vlength u in if len \<noteq> 0 then vec (x u / len) (y u / len) else u)"

text \<open>\<open>std::atan2\<close> on the reals, with values in \<open>(-\<pi>, \<pi>]\<close> and \<open>atan2 0 0 = 0\<close>.\<close>

definition atan2 :: "real \<Rightarrow> real \<Rightarrow> real" where
  "atan2 b a =
     (if 0 < a then arctan (b / a)
      else if a < 0 \<and> 0 \<le> b then arctan (b / a) + pi
      else if a < 0 \<and> b < 0 then arctan (b / a) - pi
      else if 0 < b then pi / 2
      else if b < 0 then - (pi / 2)
      else 0)"

text \<open>
  The two loops of \<open>addReachingSequence\<close> that bring the rotation into \<open>[-\<pi>, \<pi>]\<close>:
  \<open>while (r > M_PI) r -= 2 * M_PI\<close> and \<open>while (r < -M_PI) r += 2 * M_PI\<close>.
\<close>

function wrapAbove :: "real \<Rightarrow> real" where
  "wrapAbove r = (if r > pi then wrapAbove (r - 2 * pi) else r)"
  by pat_completeness auto
termination
proof (relation "measure (\<lambda>r. nat \<lceil>r / (2 * pi)\<rceil>)")
  show "wf (measure (\<lambda>r. nat \<lceil>r / (2 * pi)\<rceil>))" by simp
next
  fix r :: real
  assume "pi < r"
  define q where "q = r / (2 * pi)"
  have "0 < r" using \<open>pi < r\<close> pi_gt_zero by linarith
  then have "0 < q" by (simp add: q_def)
  then have pos: "0 < \<lceil>q\<rceil>" by simp
  have e: "(r - 2 * pi) / (2 * pi) = q - 1"
    by (simp add: q_def diff_divide_distrib)
  show "(r - 2 * pi, r) \<in> measure (\<lambda>r. nat \<lceil>r / (2 * pi)\<rceil>)"
    unfolding in_measure e q_def [symmetric] using pos by simp
qed

function wrapBelow :: "real \<Rightarrow> real" where
  "wrapBelow r = (if r < - pi then wrapBelow (r + 2 * pi) else r)"
  by pat_completeness auto
termination
proof (relation "measure (\<lambda>r. nat \<lceil>- r / (2 * pi)\<rceil>)")
  show "wf (measure (\<lambda>r. nat \<lceil>- r / (2 * pi)\<rceil>))" by simp
next
  fix r :: real
  assume "r < - pi"
  define q where "q = - r / (2 * pi)"
  have "0 < - r" using \<open>r < - pi\<close> pi_gt_zero by linarith
  then have "0 < q" unfolding q_def by (intro divide_pos_pos) simp_all
  then have pos: "0 < \<lceil>q\<rceil>" by simp
  have e: "- (r + 2 * pi) / (2 * pi) = q - 1"
    by (simp add: q_def diff_divide_distrib)
  show "(r + 2 * pi, r) \<in> measure (\<lambda>r. nat \<lceil>- r / (2 * pi)\<rceil>)"
    unfolding in_measure e q_def [symmetric] using pos by simp
qed

text \<open>
  A planned move. A walk move and the grab move never assign \<open>rotationAmount\<close>, which is
  \<open>None\<close> then (reading it would read an indeterminate value); the default constructed
  \<open>position\<close> is the origin and the default \<open>segmentName\<close> is empty.
\<close>

datatype MoveType = WALK | REACH | GRAB

record Move =
  type :: MoveType
  position :: vec
  segmentName :: string
  rotationAmount :: "real option"

text \<open>
  The strategy refers to a shared Body and a shared target circle; both are arguments of
  the operations below, and the Body is returned where it is changed. The Body pointer is
  dereferenced everywhere without a test; the target may be null. \<open>logger\<close> tells whether
  a logger is attached: the log texts are not modelled, the counter \<open>currentMoveIndex\<close>,
  which only the logging statement increments, is.
\<close>

record WalkerStrategy =
  logger :: bool
  walkSpeed :: real
  plannedMoves :: "Move list"
  objectCaught :: bool
  currentMoveIndex :: int
  minGroundContacts :: int
  minObjectContacts :: int

datatype fault = NoReturn | NullBody | NullTarget | CastOutOfRange | IndeterminateValue

text \<open>
  \<open>static_cast<int>\<close> of a double truncates towards zero and is undefined outside the
  range of \<open>int\<close>; the quotient by a zero speed is infinite, hence outside the range.
\<close>

definition static_cast_int_quotient :: "real \<Rightarrow> real \<Rightarrow> int option" where
  "static_cast_int_quotient a b =
     (if b = 0 then None
      else if - (2 ^ 31) - 1 < a / b \<and> a / b < 2 ^ 31 then Some (trunc (a / b))
      else None)"

definition walkMove :: "vec \<Rightarrow> Move" where
  "walkMove p = \<lparr> type = WALK, position = p, segmentName = [], rotationAmount = None \<rparr>"

definition reachMove :: "string \<Rightarrow> vec \<Rightarrow> real \<Rightarrow> Move" where
  "reachMove name p r = \<lparr> type = REACH, position = p, segmentName = name, rotationAmount = Some r \<rparr>"

definition grabMove :: Move where
  "grabMove = \<lparr> type = GRAB, position = vec 0 0, segmentName = [], rotationAmount = None \<rparr>"

definition addWalkingSequence :: "vec \<Rightarrow> Body \<Rightarrow> WalkerStrategy \<Rightarrow> fault + WalkerStrategy" where
  "addWalkingSequence targetPos body w =
     (let startPos = basePosition body;
          distance = magnitude (vsub targetPos startPos);
          reachDistance = 50;
          walkingDistance = distance - reachDistance
      in if walkingDistance \<le> 0 then Inr w
         else
           (case static_cast_int_quotient walkingDistance (walkSpeed w) of
              None \<Rightarrow> Inl CastOutOfRange
            | Some numWalkingSteps \<Rightarrow>
                (let stepVector = vmul (normalize (vsub targetPos startPos)) (walkSpeed w)
                 in Inr (w\<lparr> plannedMoves := plannedMoves w @
                      map (\<lambda>i. walkMove (vadd startPos (vmul stepVector (of_int (i + 1)))))
                          [0 .. numWalkingSteps - 1] \<rparr>))))"

definition reachingSegments :: "string list" where
  "reachingSegments = [''left_lower_arm'', ''right_lower_arm'', ''left_hand'', ''right_hand'']"

fun reachMoves :: "vec \<Rightarrow> Body \<Rightarrow> string list \<Rightarrow> Move list" where
  "reachMoves targetPos body [] = []"
| "reachMoves targetPos body (name # rest) =
     (case getSegment body name of
        None \<Rightarrow> reachMoves targetPos body rest
      | Some segment \<Rightarrow>
          (let toTarget = vsub targetPos (start segment);
               targetAngle = atan2 (y toTarget) (x toTarget);
               rotation = wrapBelow (wrapAbove (targetAngle - angle segment))
           in reachMove name targetPos rotation # reachMoves targetPos body rest))"

definition addReachingSequence :: "vec \<Rightarrow> Body \<Rightarrow> WalkerStrategy \<Rightarrow> WalkerStrategy" where
  "addReachingSequence targetPos body w =
     w\<lparr> plannedMoves := plannedMoves w @ reachMoves targetPos body reachingSegments @ [grabMove] \<rparr>"

text \<open>\<open>WalkerStrategy::planSequence(const Vector2D&)\<close>.\<close>

definition planSequence :: "vec \<Rightarrow> Body \<Rightarrow> WalkerStrategy \<Rightarrow> fault + WalkerStrategy" where
  "planSequence objectPosition body w =
     (let w1 = w\<lparr> plannedMoves := [], objectCaught := False, currentMoveIndex := 0 \<rparr>
      in case addWalkingSequence objectPosition body w1 of
           Inl e \<Rightarrow> Inl e
         | Inr w2 \<Rightarrow> Inr (addReachingSequence objectPosition body w2))"

definition isSequenceComplete :: "WalkerStrategy \<Rightarrow> bool" where
  "isSequenceComplete w \<longleftrightarrow> plannedMoves w = []"

definition executeWalkMove :: "nat \<Rightarrow> Move \<Rightarrow> WalkerStrategy \<Rightarrow> Body \<Rightarrow> fault + (bool \<times> Body)" where
  "executeWalkMove n m w body =
     (if \<not> hasMinimumGroundContacts body (minGroundContacts w) then Inr (False, body)
      else
        (case moveBaseTo n (position m) body of
           None \<Rightarrow> Inl NoReturn
         | Some body' \<Rightarrow> Inr (True, body')))"

definition executeReachMove :: "nat \<Rightarrow> Move \<Rightarrow> WalkerStrategy \<Rightarrow> Body \<Rightarrow> fault + (bool \<times> Body)" where
  "executeReachMove n m w body =
     (if \<not> hasMinimumGroundContacts body (minGroundContacts w) then Inr (False, body)
      else
        (case getSegment body (segmentName m) of
           None \<Rightarrow> Inr (False, body)
         | Some segment \<Rightarrow>
             (case rotationAmount m of
                None \<Rightarrow> Inl IndeterminateValue
              | Some r \<Rightarrow>
                  (case rotateSegment n (segmentName m) r body of
                     None \<Rightarrow> Inl NoReturn
                   | Some (success, body') \<Rightarrow> Inr (success, body')))))"

text \<open>
  \<open>WalkerStrategy::executeNextMove\<close>. The front move is removed before it is carried
  out. A grab move dereferences the target, which is a fault when the target is null.
\<close>

definition logProgress :: "WalkerStrategy \<Rightarrow> WalkerStrategy" where
  "logProgress w = (if logger w then w\<lparr> currentMoveIndex := currentMoveIndex w + 1 \<rparr> else w)"

definition executeNextMove ::
  "nat \<Rightarrow> Circle option \<Rightarrow> WalkerStrategy \<Rightarrow> Body \<Rightarrow> fault + (bool \<times> WalkerStrategy \<times> Body)" where
  "executeNextMove n target w body =
     (if isSequenceComplete w then Inr (False, w, body)
      else
        (case plannedMoves w of
           [] \<Rightarrow> Inr (False, w, body)
         | currentMove # rest \<Rightarrow>
             (let w1 = w\<lparr> plannedMoves := rest \<rparr> in
              case type currentMove of
                WALK \<Rightarrow>
                  (case executeWalkMove n currentMove w1 body of
                     Inl e \<Rightarrow> Inl e
                   | Inr (success, body') \<Rightarrow> Inr (success, logProgress w1, body'))
              | REACH \<Rightarrow>
                  (case executeReachMove n currentMove w1 body of
                     Inl e \<Rightarrow> Inl e
                   | Inr (success, body') \<Rightarrow> Inr (success, logProgress w1, body'))
              | GRAB \<Rightarrow>
                  (case target of
                     None \<Rightarrow> Inl NullTarget
                   | Some object \<Rightarrow>
                       (if canReachObject body object (minObjectContacts w1)
                        then Inr (True, logProgress (w1\<lparr> objectCaught := True \<rparr>), body)
                        else Inr (False, logProgress w1, body))))))"

section \<open>Notions used to state properties of a Body\<close>

text \<open>
  The connection invariant: for every recorded pair of a parent and a child that both
  exist, the child's start equals the parent's end up to the tolerance of
  \<open>Vector2D::operator==\<close>.
\<close>

definition edgeHolds :: "Body \<Rightarrow> string \<Rightarrow> string \<Rightarrow> bool" where
  "edgeHolds b parentName childName \<longleftrightarrow>
     (case getSegment b parentName of
        None \<Rightarrow> True
      | Some parent \<Rightarrow>
          (case getSegment b childName of
             None \<Rightarrow> True
           | Some child \<Rightarrow> veq (start child) (getEnd parent)))"

definition connectionsHold :: "Body \<Rightarrow> bool" where
  "connectionsHold b \<longleftrightarrow>
     list_all (\<lambda>(parentName, children). list_all (edgeHolds b parentName) children) (connections b)"

text \<open>
  The children recorded for a name, and the end point segments that touch a circle: the
  names of existing segments that are no key of \<open>connections\<close> and whose end lies in the
  circle or whose distance to the centre is at most the radius.
\<close>

definition childrenOf :: "Body \<Rightarrow> string \<Rightarrow> string list" where
  "childrenOf b name = (case map_of (connections b) name of None \<Rightarrow> [] | Some children \<Rightarrow> children)"

definition touchingLeaves :: "Body \<Rightarrow> Circle \<Rightarrow> string set" where
  "touchingLeaves b object =
     {name. \<exists>segment. getSegment b name = Some segment \<and> isEndPoint b name
                      \<and> touchesObject object segment}"

text \<open>
  The connections are free of cycles when a rank decreases from every parent to each of
  its children.
\<close>

definition rankedBy :: "(string \<Rightarrow> nat) \<Rightarrow> Body \<Rightarrow> bool" where
  "rankedBy rank b \<longleftrightarrow>
     list_all (\<lambda>(parentName, children). list_all (\<lambda>childName. rank childName < rank parentName) children)
       (connections b)"

text \<open>
  Two segments that differ at most in their start point; two segment lists with the same
  keys whose entries differ at most in the start point and agree on the keys in \<open>W\<close>;
  the keys of the entries in which two lists differ.
\<close>

definition sameButStart :: "Segment \<Rightarrow> Segment \<Rightarrow> bool" where
  "sameButStart s s' \<longleftrightarrow> s\<lparr> start := start s' \<rparr> = s'"

definition relS :: "string set \<Rightarrow> (string \<times> Segment) list \<Rightarrow> (string \<times> Segment) list \<Rightarrow> bool" where
  "relS W xs ys \<longleftrightarrow>
     list_all2 (\<lambda>e e'. fst e = fst e' \<and> sameButStart (snd e) (snd e')
                        \<and> (fst e \<in> W \<longrightarrow> snd e = snd e')) xs ys"

definition relB :: "string set \<Rightarrow> Body \<Rightarrow> Body \<Rightarrow> bool" where
  "relB W b b' \<longleftrightarrow>
     basePosition b = basePosition b' \<and> groundLevel b = groundLevel b'
     \<and> connections b = connections b' \<and> relS W (segments b) (segments b')"

definition changed :: "(string \<times> Segment) list \<Rightarrow> (string \<times> Segment) list \<Rightarrow> string set" where
  "changed xs ys = {k. \<exists>i < List.length xs. fst (xs ! i) = k \<and> xs ! i \<noteq> ys ! i}"

definition upd :: "string \<Rightarrow> (Segment \<Rightarrow> Segment) \<Rightarrow> string \<times> Segment \<Rightarrow> string \<times> Segment" where
  "upd name f = (\<lambda>(k, s). if k = name then (k, f s) else (k, s))"

section \<open>Example segments\<close>

text \<open>
  Concrete joints used to evaluate the definitions: a range written with a negative upper
  bound below a positive lower bound, the wrapping range of 270 and 90 degrees, a range of
  negative angles, and a range in the upper half turn.
\<close>

definition wrapSeg :: Segment where
  "wrapSeg = \<lparr> id = ''joint'', start = vec 0 0, length = 1, angle = 0,
               minAngle = pi, maxAngle = - (pi / 2) \<rparr>"

definition crossSeg :: Segment where
  "crossSeg = \<lparr> id = ''joint'', start = vec 0 0, length = 1, angle = 0,
                minAngle = 3 * pi / 2, maxAngle = pi / 2 \<rparr>"

definition lowSeg :: Segment where
  "lowSeg = \<lparr> id = ''joint'', start = vec 0 0, length = 1, angle = 0,
              minAngle = - pi, maxAngle = - (pi / 2) \<rparr>"

definition upperSeg :: Segment where
  "upperSeg = \<lparr> id = ''joint'', start = vec 0 0, length = 1, angle = pi,
                minAngle = pi, maxAngle = 2 * pi \<rparr>"

section \<open>Example bodies\<close>

text \<open>
  An arm with a hand attached to its end; the same body after a clamped rotation of the
  arm; the body with the base elsewhere and the hand away from the arm, and its layout.
\<close>

definition armSeg :: Segment where
  "armSeg = \<lparr> id = ''arm'', start = vec 0 0, length = 1, angle = 0,
              minAngle = 0, maxAngle = pi / 2 \<rparr>"

definition handSeg :: Segment where
  "handSeg = \<lparr> id = ''hand'', start = vec 1 0, length = 1, angle = 0,
               minAngle = 0, maxAngle = 2 * pi \<rparr>"

text \<open>
  A body that holds the arm and the hand, whatever its base, its ground level, its other
  segments and its other connections are.
\<close>

definition withArmAndHand ::
  "vec \<Rightarrow> real \<Rightarrow> (string \<times> Segment) list \<Rightarrow> (string \<times> string list) list \<Rightarrow> Body" where
  "withArmAndHand base ground others conns =
     \<lparr> basePosition = base, groundLevel = ground,
       segments = (''arm'', armSeg) # (''hand'', handSeg) # others,
       connections = (''arm'', [''hand'']) # conns \<rparr>"

definition jointBody :: Body where
  "jointBody = \<lparr> basePosition = vec 0 0, groundLevel = 0,
                 segments = [(''arm'', armSeg), (''hand'', handSeg)],
                 connections = [(''arm'', [''hand''])] \<rparr>"

definition detachedBody :: Body where
  "detachedBody = \<lparr> basePosition = vec 0 0, groundLevel = 0,
                 segments = [(''arm'', armSeg\<lparr> angle := pi / 2 \<rparr>), (''hand'', handSeg)],
                 connections = [(''arm'', [''hand''])] \<rparr>"

definition looseBody :: Body where
  "looseBody = \<lparr> basePosition = vec 2 3, groundLevel = 0,
                 segments = [(''arm'', armSeg), (''hand'', handSeg\<lparr> start := vec 7 7 \<rparr>)],
                 connections = [(''arm'', [''hand''])] \<rparr>"

definition laidOutBody :: Body where
  "laidOutBody = \<lparr> basePosition = vec 2 3, groundLevel = 0,
                 segments = [(''arm'', armSeg\<lparr> start := vec 2 3 \<rparr>),
                             (''hand'', handSeg\<lparr> start := vec 3 3 \<rparr>)],
                 connections = [(''arm'', [''hand''])] \<rparr>"

definition armRank :: "string \<Rightarrow> nat" where
  "armRank name = (if name = ''arm'' then 1 else 0)"

text \<open>A circle of radius 1 around the end of the hand of \<open>jointBody\<close>.\<close>

definition ball :: Circle where
  "ball = \<lparr> center = vec 2 0, radius = 1, velocity = vec 0 0, gravity = 0, hasPhysics = False \<rparr>"

text \<open>
  The body of the arm and the hand with its base at \<open>(100, 400)\<close> on the ground level
  400, and a walker with the default speed 5, ground contact gate 2 and grab threshold 3.
\<close>

definition walkBody :: Body where
  "walkBody = jointBody\<lparr> basePosition := vec 100 400, groundLevel := 400 \<rparr>"

definition walker0 :: WalkerStrategy where
  "walker0 = \<lparr> logger = False, walkSpeed = 5, plannedMoves = [], objectCaught = False,
               currentMoveIndex = 0, minGroundContacts = 2, minObjectContacts = 3 \<rparr>"

text \<open>The walker with a walk move and the grab move in its queue.\<close>

definition queuedWalker :: WalkerStrategy where
  "queuedWalker = walker0\<lparr> plannedMoves := [walkMove (vec 105 400), grabMove] \<rparr>"

section \<open>SnowballStrategy\<close>

text \<open>
  The aim computation takes a square root and divides by its result, so the projectile's
  coordinates can leave the finite numbers. A coordinate of the projectile is a finite
  real, an infinity or NaN, with the arithmetic and comparisons of IEEE 754 on these
  values; rounding, overflow and the sign of zero are not modelled (a zero divisor counts
  as positive zero).
\<close>

datatype dbl = Fin real | PInf | NInf | NaN

fun dneg :: "dbl \<Rightarrow> dbl" where
  "dneg (Fin a) = Fin (- a)"
| "dneg PInf = NInf"
| "dneg NInf = PInf"
| "dneg NaN = NaN"

fun dadd :: "dbl \<Rightarrow> dbl \<Rightarrow> dbl" where
  "dadd NaN b = NaN"
| "dadd a NaN = NaN"
| "dadd (Fin a) (Fin b) = Fin (a + b)"
| "dadd PInf NInf = NaN"
| "dadd NInf PInf = NaN"
| "dadd PInf b = PInf"
| "dadd a PInf = PInf"
| "dadd NInf b = NInf"
| "dadd a NInf = NInf"

definition dsub :: "dbl \<Rightarrow> dbl \<Rightarrow> dbl" where
  "dsub a b = dadd a (dneg b)"

text \<open>The sign of a value that is not NaN: \<open>-1\<close>, \<open>0\<close> or \<open>1\<close>.\<close>

fun dsgn :: "dbl \<Rightarrow> int" where
  "dsgn (Fin a) = (if 0 < a then 1 else if a < 0 then - 1 else 0)"
| "dsgn PInf = 1"
| "dsgn NInf = - 1"
| "dsgn NaN = 0"

definition infinity_of_sign :: "int \<Rightarrow> dbl" where
  "infinity_of_sign s = (if 0 < s then PInf else if s < 0 then NInf else NaN)"

fun dmul :: "dbl \<Rightarrow> dbl \<Rightarrow> dbl" where
  "dmul NaN b = NaN"
| "dmul a NaN = NaN"
| "dmul (Fin a) (Fin b) = Fin (a * b)"
| "dmul a b = infinity_of_sign (dsgn a * dsgn b)"

fun ddiv :: "dbl \<Rightarrow> dbl \<Rightarrow> dbl" where
  "ddiv NaN b = NaN"
| "ddiv a NaN = NaN"
| "ddiv (Fin a) (Fin b) = (if b \<noteq> 0 then Fin (a / b) else infinity_of_sign (dsgn (Fin a)))"
| "ddiv (Fin a) b = Fin 0"
| "ddiv a (Fin b) = infinity_of_sign (dsgn a * (if b < 0 then - 1 else 1))"
| "ddiv a b = NaN"

fun dsqrt :: "dbl \<Rightarrow> dbl" where
  "dsqrt (Fin a) = (if a < 0 then NaN else Fin (sqrt a))"
| "dsqrt PInf = PInf"
| "dsqrt NInf = NaN"
| "dsqrt NaN = NaN"

fun dle :: "dbl \<Rightarrow> dbl \<Rightarrow> bool" where
  "dle NaN b = False"
| "dle a NaN = False"
| "dle (Fin a) (Fin b) = (a \<le> b)"
| "dle NInf b = True"
| "dle a PInf = True"
| "dle a b = False"

definition dge :: "dbl \<Rightarrow> dbl \<Rightarrow> bool" where
  "dge a b = dle b a"

type_synonym dvec = "dbl Vector2D"

definition dvec_of :: "vec \<Rightarrow> dvec" where
  "dvec_of u = \<lparr> x = Fin (x u), y = Fin (y u) \<rparr>"

definition dmagnitude :: "dvec \<Rightarrow> dbl" where
  "dmagnitude u = dsqrt (dadd (dmul (x u) (x u)) (dmul (y u) (y u)))"

text \<open>
  The strategy refers to a shared Body and a shared target, which are arguments of the
  operations (either may be null); the logger has no effect on the state and is left out.
  The gravity, the radius and the time steps are finite numbers.
\<close>

record SnowballStrategy =
  active :: bool
  position :: dvec
  velocity :: dvec
  gravity :: real
  radius :: real
  hitTarget :: bool
  hitGround :: bool

definition newSnowballStrategy :: "real \<Rightarrow> real \<Rightarrow> SnowballStrategy" where
  "newSnowballStrategy snowballRadius g =
     \<lparr> active = False, position = dvec_of (vec 0 0), velocity = dvec_of (vec 0 0),
       gravity = g, radius = snowballRadius, hitTarget = False, hitGround = False \<rparr>"

definition reset :: "SnowballStrategy \<Rightarrow> SnowballStrategy" where
  "reset s = s\<lparr> active := False, hitTarget := False, hitGround := False,
                position := dvec_of (vec 0 0), velocity := dvec_of (vec 0 0) \<rparr>"

definition planSequence_snowball :: "SnowballStrategy \<Rightarrow> SnowballStrategy" where
  "planSequence_snowball s = reset s"

definition prepareThrow :: "vec \<Rightarrow> vec \<Rightarrow> SnowballStrategy \<Rightarrow> SnowballStrategy" where
  "prepareThrow p v s =
     s\<lparr> position := dvec_of p, velocity := dvec_of v,
        active := False, hitTarget := False, hitGround := False \<rparr>"

definition throwSnowball :: "SnowballStrategy \<Rightarrow> SnowballStrategy" where
  "throwSnowball s =
     (if active s then s else s\<lparr> active := True, hitTarget := False, hitGround := False \<rparr>)"

text \<open>
  \<open>SnowballStrategy::executeNextMove\<close>. When the stored position is the origin the launch
  position and the velocity are computed from the Body and the target; there is no test
  of the argument of the square root. The throw follows in either case.
\<close>

definition aimVelocity :: "real \<Rightarrow> real \<Rightarrow> real \<Rightarrow> dvec" where
  "aimVelocity dx dy g =
     (let time = dsqrt (ddiv (Fin (2 * dx)) (Fin g))
      in \<lparr> x = ddiv (Fin dx) time,
           y = dadd (ddiv (dmul (Fin (- g)) time) (Fin 2)) (ddiv (Fin dy) time) \<rparr>)"

definition executeNextMove_snowball ::
  "Body option \<Rightarrow> Circle option \<Rightarrow> SnowballStrategy \<Rightarrow> fault + (bool \<times> SnowballStrategy)" where
  "executeNextMove_snowball body target s =
     (if \<not> active s \<and> \<not> hitTarget s \<and> \<not> hitGround s then
        (if x (position s) = Fin 0 \<and> y (position s) = Fin 0 then
           (case body of
              None \<Rightarrow> Inl NullBody
            | Some b \<Rightarrow>
                (case target of
                   None \<Rightarrow> Inl NullTarget
                 | Some t \<Rightarrow>
                     (let bodyPos = basePosition b;
                          targetPos = center t;
                          launch = vec (x bodyPos) (y bodyPos - 50);
                          dx = x targetPos - x launch;
                          dy = y targetPos - y launch
                      in Inr (True, throwSnowball
                           (s\<lparr> position := dvec_of launch,
                               velocity := aimVelocity dx dy (gravity s) \<rparr>)))))
         else Inr (True, throwSnowball s))
      else Inr (False, s))"

definition isSequenceComplete_snowball :: "SnowballStrategy \<Rightarrow> bool" where
  "isSequenceComplete_snowball s \<longleftrightarrow> hitTarget s \<or> hitGround s \<or> \<not> active s"

definition updatePhysics :: "real \<Rightarrow> SnowballStrategy \<Rightarrow> SnowballStrategy" where
  "updatePhysics deltaTime s =
     (let vy = dadd (y (velocity s)) (Fin (gravity s * deltaTime));
          px = dadd (x (position s)) (dmul (x (velocity s)) (Fin deltaTime));
          py = dadd (y (position s)) (dmul vy (Fin deltaTime))
      in s\<lparr> velocity := (velocity s)\<lparr> y := vy \<rparr>, position := \<lparr> x = px, y = py \<rparr> \<rparr>)"

definition checkGroundCollision :: "Body option \<Rightarrow> SnowballStrategy \<Rightarrow> bool" where
  "checkGroundCollision body s =
     (case body of
        None \<Rightarrow> False
      | Some b \<Rightarrow> dge (dadd (y (position s)) (Fin (radius s))) (Fin (groundLevel b)))"

definition checkTargetCollision :: "Circle option \<Rightarrow> SnowballStrategy \<Rightarrow> bool" where
  "checkTargetCollision target s =
     (case target of
        None \<Rightarrow> False
      | Some t \<Rightarrow>
          (let distance = dmagnitude \<lparr> x = dsub (x (position s)) (Fin (x (center t))),
                                      y = dsub (y (position s)) (Fin (y (center t))) \<rparr>
           in dle distance (Fin (radius s + Circle.radius t))))"

definition checkCollisions :: "Body option \<Rightarrow> Circle option \<Rightarrow> SnowballStrategy \<Rightarrow> SnowballStrategy" where
  "checkCollisions body target s =
     (if checkGroundCollision body s then s\<lparr> hitGround := True, active := False \<rparr>
      else if checkTargetCollision target s then s\<lparr> hitTarget := True, active := False \<rparr>
      else s)"

definition update :: "real \<Rightarrow> Body option \<Rightarrow> Circle option \<Rightarrow> SnowballStrategy \<Rightarrow> SnowballStrategy" where
  "update deltaTime body target s =
     (if \<not> active s then s else checkCollisions body target (updatePhysics deltaTime s))"

text \<open>
  The states a strategy can be in: the constructed one and every state that a public
  operation yields, with any Body and target at each call.
\<close>

inductive reachable :: "SnowballStrategy \<Rightarrow> bool" where
  reach_new: "reachable (newSnowballStrategy snowballRadius g)"
| reach_plan: "reachable s \<Longrightarrow> reachable (planSequence_snowball s)"
| reach_execute:
    "reachable s \<Longrightarrow> executeNextMove_snowball body target s = Inr (ok, s') \<Longrightarrow> reachable s'"
| reach_prepare: "reachable s \<Longrightarrow> reachable (prepareThrow p v s)"
| reach_throw: "reachable s \<Longrightarrow> reachable (throwSnowball s)"
| reach_update: "reachable s \<Longrightarrow> reachable (update deltaTime body target s)"
| reach_reset: "reachable s \<Longrightarrow> reachable (reset s)"

text \<open>
  A target to the left of the body, a target at the place where a snowball dropped from
  \<open>(100, 350)\<close> is after three seconds, and that snowball after the throw.
\<close>

definition leftTarget :: Circle where
  "leftTarget = \<lparr> center = vec 50 350, Circle.radius = 20, Circle.velocity = vec 0 0,
                  Circle.gravity = 0, hasPhysics = False \<rparr>"

definition landingTarget :: Circle where
  "landingTarget = \<lparr> center = vec 100 (2191 / 5), Circle.radius = 20, Circle.velocity = vec 0 0,
                     Circle.gravity = 0, hasPhysics = False \<rparr>"

definition droppedSnowball :: SnowballStrategy where
  "droppedSnowball = throwSnowball (prepareThrow (vec 100 350) (vec 0 0) (newSnowballStrategy 10 (98 / 10)))"

text \<open>The state after the throw at \<open>leftTarget\<close> from the body at \<open>(100, 400)\<close>.\<close>

definition nanSnowball :: SnowballStrategy where
  "nanSnowball = \<lparr> active = True, position = dvec_of (vec 100 350),
                   velocity = \<lparr> x = NaN, y = NaN \<rparr>, gravity = 98 / 10, radius = 10,
                   hitTarget = False, hitGround = False \<rparr>"

section \<open>Facts about angle normalisation\<close>

lemma trunc_small: "0 \<le> r \<Longrightarrow> r < 1 \<Longrightarrow> trunc r = 0"
  unfolding trunc_def by (simp add: floor_eq_iff)

lemma trunc_small_neg: "- 1 < r \<Longrightarrow> r < 0 \<Longrightarrow> trunc r = 0"
  unfolding trunc_def by (simp add: ceiling_eq_iff)

lemma normalizeAngle_id:
  assumes "0 \<le> a" and "a < 2 * pi"
  shows "normalizeAngle a = a"
proof -
  have "0 \<le> a / (2 * pi)" and "a / (2 * pi) < 1"
    using assms by simp_all
  then have "trunc (a / (2 * pi)) = 0"
    by (rule trunc_small)
  then show ?thesis
    using assms by (simp add: normalizeAngle_def fmod_def)
qed

lemma fmod_bounds_nonneg:
  assumes "0 \<le> a" and "0 < b"
  shows "0 \<le> fmod a b \<and> fmod a b < b"
proof -
  have q: "0 \<le> a / b" using assms by simp
  define n where "n = \<lfloor>a / b\<rfloor>"
  have "of_int n \<le> a / b" and "a / b < of_int n + 1"
    unfolding n_def by linarith+
  then have "of_int n * b \<le> a" and "a < (of_int n + 1) * b"
    using assms(2) by (simp_all add: pos_le_divide_eq pos_divide_less_eq)
  then show ?thesis
    using q by (simp add: fmod_def trunc_def n_def algebra_simps)
qed

lemma fmod_bounds_neg:
  assumes "a < 0" and "0 < b"
  shows "- b < fmod a b \<and> fmod a b \<le> 0"
proof -
  have q: "\<not> 0 \<le> a / b" using assms by (simp add: divide_less_0_iff not_le)
  define n where "n = \<lceil>a / b\<rceil>"
  have "of_int n - 1 < a / b" and "a / b \<le> of_int n"
    unfolding n_def by linarith+
  then have "(of_int n - 1) * b < a" and "a \<le> of_int n * b"
    using assms(2) by (simp_all add: pos_divide_le_eq pos_less_divide_eq)
  then show ?thesis
    using q by (simp add: fmod_def trunc_def n_def algebra_simps)
qed

lemma normalizeAngle_range: "0 \<le> normalizeAngle a \<and> normalizeAngle a < 2 * pi"
proof (cases "0 \<le> a")
  case True
  then show ?thesis
    using fmod_bounds_nonneg [of a "2 * pi"] by (simp add: normalizeAngle_def Let_def)
next
  case False
  then have "- (2 * pi) < fmod a (2 * pi) \<and> fmod a (2 * pi) \<le> 0"
    using fmod_bounds_neg [of a "2 * pi"] by simp
  then show ?thesis
    by (auto simp: normalizeAngle_def Let_def)
qed

lemma clampAngle_cases:
  "clampAngle s a = normalizeAngle a \<or> clampAngle s a = minAngle s \<or> clampAngle s a = maxAngle s"
  by (simp add: clampAngle_def Let_def min_def max_def)

lemma normalizeAngle_neg:
  assumes "- (2 * pi) < a" and "a < 0"
  shows "normalizeAngle a = a + 2 * pi"
proof -
  have "- 1 < a / (2 * pi)" and "a / (2 * pi) < 0"
    using assms by (simp_all add: pos_less_divide_eq divide_less_0_iff)
  then have "trunc (a / (2 * pi)) = 0"
    by (rule trunc_small_neg)
  then show ?thesis
    using assms by (simp add: normalizeAngle_def fmod_def)
qed

lemma clampAngle_exact: "clampAngleWith (2 * pi) (\<lambda>v. v) s a = clampAngle s a"
  by (simp add: clampAngleWith_def clampAngle_def normalizeAngleWith_def normalizeAngle_def)

lemma normalizeAngleWith_id:
  assumes "0 \<le> a" and "a < period"
  shows "normalizeAngleWith period fl a = a"
proof -
  have p: "0 < period" using assms by simp
  have "0 \<le> a / period" and "a / period < 1"
    using assms p by simp_all
  then have "trunc (a / period) = 0"
    by (rule trunc_small)
  then show ?thesis
    using assms by (simp add: normalizeAngleWith_def fmod_def)
qed

lemma normalizeAngleWith_nonneg:
  assumes "0 < period" and "0 \<le> a"
  shows "0 \<le> normalizeAngleWith period fl a \<and> normalizeAngleWith period fl a < period"
  using fmod_bounds_nonneg [OF assms(2,1)] by (simp add: normalizeAngleWith_def Let_def)

lemma normalizeAngleWith_range:
  assumes "0 < period" and "roundsInto period fl"
  shows "0 \<le> normalizeAngleWith period fl a \<and> normalizeAngleWith period fl a \<le> period"
proof (cases "0 \<le> a")
  case True
  then show ?thesis
    using normalizeAngleWith_nonneg [OF assms(1), of a fl] by simp
next
  case False
  then have b: "- period < fmod a period" "fmod a period \<le> 0"
    using fmod_bounds_neg [of a period] assms(1) by simp_all
  show ?thesis
  proof (cases "fmod a period < 0")
    case True
    then have "0 < fmod a period + period" "fmod a period + period < period"
      using b by simp_all
    then have "0 \<le> fl (fmod a period + period) \<and> fl (fmod a period + period) \<le> period"
      using assms(2) by (simp add: roundsInto_def)
    then show ?thesis
      using True by (simp add: normalizeAngleWith_def Let_def)
  next
    case False
    then have "fmod a period = 0" using b by simp
    then show ?thesis
      using assms(1) by (simp add: normalizeAngleWith_def Let_def)
  qed
qed

lemma clampAngle_wrapSeg_first: "clampAngle wrapSeg (pi / 8) = - (pi / 2)"
proof -
  have n: "normalizeAngle (pi / 8) = pi / 8"
    by (rule normalizeAngle_id) simp_all
  have ineq: "\<not> pi \<le> - (pi / 2)" "\<not> pi / 8 \<le> - (pi / 2)" "\<not> pi \<le> pi / 8" "\<not> pi \<le> 0"
    "\<not> \<bar>pi / 8 - pi\<bar> \<le> \<bar>pi / 8 + pi / 2\<bar>" "\<not> \<bar>pi / 8 + pi\<bar> \<le> \<bar>pi / 8 + pi / 2\<bar>"
    by (insert pi_gt_zero) linarith+
  show ?thesis
    by (simp add: clampAngle_def n wrapSeg_def Let_def min_def ineq)
qed

lemma clampAngle_wrapSeg_second: "clampAngle wrapSeg (- (pi / 2)) = 3 * pi / 2"
proof -
  have n: "normalizeAngle (- (pi / 2)) = - (pi / 2) + 2 * pi"
    by (rule normalizeAngle_neg) simp_all
  show ?thesis
    using pi_gt_zero
    by (auto simp add: clampAngle_def n wrapSeg_def Let_def split: if_splits)
qed

section \<open>Facts about the layout of a Body\<close>

lemma segments_modifySegment: "segments (modifySegment name f b) = map (upd name f) (segments b)"
  by (simp add: modifySegment_def upd_def)

lemma other_modifySegment:
  "basePosition (modifySegment name f b) = basePosition b"
  "groundLevel (modifySegment name f b) = groundLevel b"
  "connections (modifySegment name f b) = connections b"
  by (simp_all add: modifySegment_def)

lemma fst_upd: "fst (upd name f e) = fst e"
  by (cases e) (simp add: upd_def)

lemma sameButStart_refl: "sameButStart s s"
  by (simp add: sameButStart_def)

lemma sameButStart_trans: "sameButStart s t \<Longrightarrow> sameButStart t u \<Longrightarrow> sameButStart s u"
  unfolding sameButStart_def by (metis Segment.surjective Segment.update_convs(2))

lemma sameButStart_setStart: "sameButStart s s' \<Longrightarrow> setStart v s = setStart v s'"
  unfolding sameButStart_def setStart_def by (metis Segment.surjective Segment.update_convs(2))

lemma sameButStart_setStart_right: "sameButStart s (setStart v s)"
  by (simp add: sameButStart_def setStart_def)

lemma relS_mono: "relS W xs ys \<Longrightarrow> W' \<subseteq> W \<Longrightarrow> relS W' xs ys"
  unfolding relS_def by (erule list_all2_mono) auto

lemma relS_keys: "relS W xs ys \<Longrightarrow> map fst xs = map fst ys"
  unfolding relS_def by (induction xs ys rule: list_all2_induct) auto

lemma relS_refl: "relS W xs xs"
  unfolding relS_def by (simp add: list_all2_same sameButStart_refl)

lemma relS_trans: "relS {} xs ys \<Longrightarrow> relS {} ys zs \<Longrightarrow> relS {} xs zs"
  unfolding relS_def
  by (erule (1) list_all2_trans [rotated]) (auto intro: sameButStart_trans)

lemma relS_map_of_dom: "relS W xs ys \<Longrightarrow> (map_of xs k = None) = (map_of ys k = None)"
  using relS_keys [of W xs ys] by (metis map_of_eq_None_iff set_map)

lemma relS_map_of: "relS W xs ys \<Longrightarrow> k \<in> W \<Longrightarrow> map_of xs k = map_of ys k"
  unfolding relS_def
proof (induction xs ys rule: list_all2_induct)
  case Nil
  then show ?case by simp
next
  case (Cons e xs e' ys)
  then show ?case by (cases e; cases e') auto
qed

lemma relS_modify:
  "relS W xs ys \<Longrightarrow> relS (insert k W) (map (upd k (setStart v)) xs) (map (upd k (setStart v)) ys)"
  unfolding relS_def list_all2_map1 list_all2_map2
  by (erule list_all2_mono)
     (auto simp: upd_def sameButStart_setStart sameButStart_refl split: prod.splits)

lemma relS_modify_self: "relS {} xs (map (upd k (setStart v)) xs)"
  unfolding relS_def list_all2_map2
  by (rule list_all2_all_nthI) (auto simp: upd_def sameButStart_refl sameButStart_setStart_right split: prod.splits)

lemma changed_trans:
  assumes "map fst xs = map fst ys"
  shows "changed xs zs \<subseteq> changed xs ys \<union> changed ys zs"
proof
  fix k assume "k \<in> changed xs zs"
  then obtain i where i: "i < List.length xs" "fst (xs ! i) = k" "xs ! i \<noteq> zs ! i"
    by (auto simp: changed_def)
  have len: "List.length ys = List.length xs"
    using assms by (metis length_map)
  have key: "fst (ys ! i) = fst (xs ! i)"
    using assms i(1) len by (metis nth_map)
  show "k \<in> changed xs ys \<union> changed ys zs"
  proof (cases "xs ! i = ys ! i")
    case True
    then have "ys ! i \<noteq> zs ! i" using i(3) by simp
    then have "k \<in> changed ys zs"
      using i key len by (auto simp: changed_def)
    then show ?thesis by simp
  next
    case False
    then have "k \<in> changed xs ys" using i by (auto simp: changed_def)
    then show ?thesis by simp
  qed
qed

lemma changed_modify: "changed xs (map (upd k f) xs) \<subseteq> {k}"
  by (auto simp: changed_def upd_def split: prod.splits if_splits)

lemma relS_changed_eq:
  assumes "relS W xs ys" and "changed xs ys \<subseteq> W"
  shows "xs = ys"
proof (rule nth_equalityI)
  show len: "List.length xs = List.length ys"
    using assms(1) by (simp add: relS_def list_all2_lengthD)
  fix i assume i: "i < List.length xs"
  have p: "fst (xs ! i) = fst (ys ! i) \<and> (fst (xs ! i) \<in> W \<longrightarrow> snd (xs ! i) = snd (ys ! i))"
    using assms(1) i by (simp add: relS_def list_all2_conv_all_nth)
  show "xs ! i = ys ! i"
  proof (rule ccontr)
    assume ne: "xs ! i \<noteq> ys ! i"
    then have "fst (xs ! i) \<in> changed xs ys"
      using i by (auto simp: changed_def)
    then have "snd (xs ! i) = snd (ys ! i)"
      using p assms(2) by auto
    then show False using p ne by (simp add: prod_eq_iff)
  qed
qed

lemma relB_refl: "relB W b b"
  by (simp add: relB_def relS_refl)

lemma relB_mono: "relB W b b' \<Longrightarrow> W' \<subseteq> W \<Longrightarrow> relB W' b b'"
  by (auto simp: relB_def intro: relS_mono)

lemma relB_trans: "relB {} a b \<Longrightarrow> relB {} b c \<Longrightarrow> relB {} a c"
  by (auto simp: relB_def intro: relS_trans)

lemma relB_modify_self: "relB {} b (modifySegment k (setStart v) b)"
  by (simp add: relB_def other_modifySegment segments_modifySegment relS_modify_self)

lemma relB_modify:
  "relB W b b' \<Longrightarrow> relB (insert k W) (modifySegment k (setStart v) b) (modifySegment k (setStart v) b')"
  by (simp add: relB_def other_modifySegment segments_modifySegment relS_modify)

lemma relB_getSegment: "relB W b b' \<Longrightarrow> k \<in> W \<Longrightarrow> getSegment b k = getSegment b' k"
  by (auto simp: relB_def getSegment_def intro: relS_map_of)

lemma relB_getSegment_dom: "relB W b b' \<Longrightarrow> (getSegment b k = None) = (getSegment b' k = None)"
  by (auto simp: relB_def getSegment_def dest: relS_map_of_dom)

lemma relB_keys: "relB W b b' \<Longrightarrow> map fst (segments b) = map fst (segments b')"
  by (auto simp: relB_def dest: relS_keys)

subsection \<open>The update keeps everything but the start points\<close>

lemma updateChildren_shape:
  assumes IH: "\<And>c b r. updateChildSegments n c b = Some r \<Longrightarrow> relB {} b r"
  shows "updateChildren n p cs b = Some r \<Longrightarrow> relB {} b r"
proof (induction cs arbitrary: b)
  case Nil
  then show ?case by (simp add: relB_refl)
next
  case (Cons c cs)
  show ?case
  proof (cases "getSegment b c")
    case None
    then show ?thesis using Cons by simp
  next
    case (Some cseg)
    show ?thesis
    proof (cases "getSegment b p")
      case None
      then show ?thesis using Cons Some by simp
    next
      case (Some pseg)
      let ?b2 = "modifySegment c (setStart (getEnd pseg)) b"
      from Cons.prems \<open>getSegment b c = Some cseg\<close> Some
      obtain b3 where b3: "updateChildSegments n c ?b2 = Some b3"
        and rest: "updateChildren n p cs b3 = Some r"
        by (auto split: option.splits)
      have "relB {} b ?b2" by (rule relB_modify_self)
      moreover have "relB {} ?b2 b3" using b3 by (rule IH)
      moreover have "relB {} b3 r" using rest by (rule Cons.IH)
      ultimately show ?thesis by (blast intro: relB_trans)
    qed
  qed
qed

lemma updateChildSegments_shape: "updateChildSegments n p b = Some r \<Longrightarrow> relB {} b r"
proof (induction n arbitrary: p b r)
  case 0
  then show ?case by simp
next
  case (Suc n)
  show ?case
  proof (cases "map_of (connections b) p")
    case None
    then show ?thesis using Suc.prems by (simp add: relB_refl)
  next
    case (Some cs)
    show ?thesis
    proof (cases "getSegment b p")
      case None
      then show ?thesis using Suc.prems Some by (simp add: relB_refl)
    next
      case (Some pseg)
      then have "updateChildren n p cs b = Some r"
        using Suc.prems \<open>map_of (connections b) p = Some cs\<close> by simp
      then show ?thesis
        using Suc.IH by (rule updateChildren_shape [rotated])
    qed
  qed
qed

subsection \<open>The update is determined by the data it does not overwrite\<close>

lemma updateChildren_det:
  assumes IH: "\<And>c b b' W r. relB W b b' \<Longrightarrow> c \<in> W \<Longrightarrow> updateChildSegments n c b = Some r
      \<Longrightarrow> \<exists>r'. updateChildSegments n c b' = Some r'
              \<and> relB (W \<union> changed (segments b') (segments r')) r r'"
  shows "relB W b b' \<Longrightarrow> p \<in> W \<Longrightarrow> updateChildren n p cs b = Some r
      \<Longrightarrow> \<exists>r'. updateChildren n p cs b' = Some r'
              \<and> relB (W \<union> changed (segments b') (segments r')) r r'"
proof (induction cs arbitrary: b b' W)
  case Nil
  then show ?case by (auto intro: relB_mono simp: changed_def)
next
  case (Cons c cs)
  have pe: "getSegment b p = getSegment b' p"
    using Cons.prems(1,2) by (rule relB_getSegment)
  have cd: "(getSegment b c = None) = (getSegment b' c = None)"
    using Cons.prems(1) by (rule relB_getSegment_dom)
  show ?case
  proof (cases "getSegment b c = None \<or> getSegment b p = None")
    case True
    then have "updateChildren n p cs b = Some r"
      using Cons.prems(3) by (auto split: option.splits)
    from Cons.IH [OF Cons.prems(1,2) this] show ?thesis
      using True pe cd by (auto split: option.splits)
  next
    case False
    then obtain cseg pseg cseg' where s: "getSegment b c = Some cseg" "getSegment b p = Some pseg"
      "getSegment b' c = Some cseg'" "getSegment b' p = Some pseg"
      using pe cd by auto
    let ?b2 = "modifySegment c (setStart (getEnd pseg)) b"
    let ?b2' = "modifySegment c (setStart (getEnd pseg)) b'"
    from Cons.prems(3) s
    obtain b3 where b3: "updateChildSegments n c ?b2 = Some b3"
      and rest: "updateChildren n p cs b3 = Some r"
      by (auto split: option.splits)
    have r2: "relB (insert c W) ?b2 ?b2'"
      using Cons.prems(1) by (rule relB_modify)
    from IH [OF r2 _ b3] obtain b3' where b3': "updateChildSegments n c ?b2' = Some b3'"
      and r3: "relB (insert c W \<union> changed (segments ?b2') (segments b3')) b3 b3'"
      by auto
    have "p \<in> insert c W \<union> changed (segments ?b2') (segments b3')"
      using Cons.prems(2) by simp
    from Cons.IH [OF r3 this rest] obtain r' where r': "updateChildren n p cs b3' = Some r'"
      and rr: "relB (insert c W \<union> changed (segments ?b2') (segments b3')
                 \<union> changed (segments b3') (segments r')) r r'"
      by auto
    have k1: "map fst (segments b') = map fst (segments ?b2')"
      by (rule relB_keys [OF relB_modify_self])
    have k2: "map fst (segments ?b2') = map fst (segments b3')"
      by (rule relB_keys [OF updateChildSegments_shape [OF b3']])
    have c1: "changed (segments b') (segments r')
        \<subseteq> changed (segments b') (segments ?b2') \<union> changed (segments ?b2') (segments r')"
      using k1 by (rule changed_trans)
    have c2: "changed (segments ?b2') (segments r')
        \<subseteq> changed (segments ?b2') (segments b3') \<union> changed (segments b3') (segments r')"
      using k2 by (rule changed_trans)
    have c3: "changed (segments b') (segments ?b2') \<subseteq> {c}"
      by (simp add: segments_modifySegment changed_modify)
    have sub: "W \<union> changed (segments b') (segments r')
        \<subseteq> insert c W \<union> changed (segments ?b2') (segments b3')
                 \<union> changed (segments b3') (segments r')"
      using c1 c2 c3 by blast
    have "updateChildren n p (c # cs) b' = Some r'"
      using s b3' r' by simp
    moreover have "relB (W \<union> changed (segments b') (segments r')) r r'"
      using rr sub by (rule relB_mono)
    ultimately show ?thesis by blast
  qed
qed

lemma updateChildSegments_det:
  "relB W b b' \<Longrightarrow> p \<in> W \<Longrightarrow> updateChildSegments n p b = Some r
      \<Longrightarrow> \<exists>r'. updateChildSegments n p b' = Some r'
              \<and> relB (W \<union> changed (segments b') (segments r')) r r'"
proof (induction n arbitrary: p b b' W r)
  case 0
  then show ?case by simp
next
  case (Suc n)
  have ce: "connections b = connections b'"
    using Suc.prems(1) by (simp add: relB_def)
  have pe: "getSegment b p = getSegment b' p"
    using Suc.prems(1,2) by (rule relB_getSegment)
  show ?case
  proof (cases "map_of (connections b) p = None \<or> getSegment b p = None")
    case True
    then have "r = b" "updateChildSegments (Suc n) p b' = Some b'"
      using Suc.prems(3) ce pe by (auto split: option.splits)
    moreover have "relB (W \<union> changed (segments b') (segments b')) b b'"
      using Suc.prems(1) by (auto intro: relB_mono simp: changed_def)
    ultimately show ?thesis by simp
  next
    case False
    then obtain cs pseg where s: "map_of (connections b) p = Some cs" "getSegment b p = Some pseg"
      by auto
    then have "updateChildren n p cs b = Some r"
      using Suc.prems(3) by simp
    from updateChildren_det [OF Suc.IH Suc.prems(1,2) this]
    show ?thesis using s ce pe by simp
  qed
qed

lemma layoutRoots_shape: "layoutRoots n roots b = Some r \<Longrightarrow> relB {} b r"
proof (induction roots arbitrary: b)
  case Nil
  then show ?case by (simp add: relB_refl)
next
  case (Cons root roots)
  let ?b2 = "modifySegment root (setStart (basePosition b)) b"
  from Cons.prems obtain b3 where b3: "updateChildSegments n root ?b2 = Some b3"
    and rest: "layoutRoots n roots b3 = Some r"
    by (auto split: option.splits)
  have "relB {} b ?b2" by (rule relB_modify_self)
  moreover have "relB {} ?b2 b3" using b3 by (rule updateChildSegments_shape)
  moreover have "relB {} b3 r" using rest by (rule Cons.IH)
  ultimately show ?case by (blast intro: relB_trans)
qed

lemma layoutRoots_det:
  "relB W b b' \<Longrightarrow> layoutRoots n roots b = Some r
      \<Longrightarrow> \<exists>r'. layoutRoots n roots b' = Some r'
              \<and> relB (W \<union> changed (segments b') (segments r')) r r'"
proof (induction roots arbitrary: b b' W)
  case Nil
  then show ?case by (auto intro: relB_mono simp: changed_def)
next
  case (Cons root roots)
  have be: "basePosition b = basePosition b'"
    using Cons.prems(1) by (simp add: relB_def)
  let ?b2 = "modifySegment root (setStart (basePosition b)) b"
  let ?b2' = "modifySegment root (setStart (basePosition b)) b'"
  from Cons.prems(2) obtain b3 where b3: "updateChildSegments n root ?b2 = Some b3"
    and rest: "layoutRoots n roots b3 = Some r"
    by (auto split: option.splits)
  have r2: "relB (insert root W) ?b2 ?b2'"
    using Cons.prems(1) by (rule relB_modify)
  from updateChildSegments_det [OF r2 _ b3]
  obtain b3' where b3': "updateChildSegments n root ?b2' = Some b3'"
    and r3: "relB (insert root W \<union> changed (segments ?b2') (segments b3')) b3 b3'"
    by auto
  from Cons.IH [OF r3 rest] obtain r' where r': "layoutRoots n roots b3' = Some r'"
    and rr: "relB (insert root W \<union> changed (segments ?b2') (segments b3')
               \<union> changed (segments b3') (segments r')) r r'"
    by auto
  have k1: "map fst (segments b') = map fst (segments ?b2')"
    by (rule relB_keys [OF relB_modify_self])
  have k2: "map fst (segments ?b2') = map fst (segments b3')"
    by (rule relB_keys [OF updateChildSegments_shape [OF b3']])
  have c1: "changed (segments b') (segments r')
      \<subseteq> changed (segments b') (segments ?b2') \<union> changed (segments ?b2') (segments r')"
    using k1 by (rule changed_trans)
  have c2: "changed (segments ?b2') (segments r')
      \<subseteq> changed (segments ?b2') (segments b3') \<union> changed (segments b3') (segments r')"
    using k2 by (rule changed_trans)
  have c3: "changed (segments b') (segments ?b2') \<subseteq> {root}"
    by (simp add: segments_modifySegment changed_modify)
  have sub: "W \<union> changed (segments b') (segments r')
      \<subseteq> insert root W \<union> changed (segments ?b2') (segments b3')
               \<union> changed (segments b3') (segments r')"
    using c1 c2 c3 by blast
  have "layoutRoots n (root # roots) b' = Some r'"
    using b3' r' be by simp
  moreover have "relB (W \<union> changed (segments b') (segments r')) r r'"
    using rr sub by (rule relB_mono)
  ultimately show ?case by blast
qed

lemma relB_rootSegments: "relB W b b' \<Longrightarrow> rootSegments b' = rootSegments b"
  using relB_keys [of W b b']
  by (simp add: rootSegments_def getSegmentNames_def isChild_def relB_def)

lemma relB_eq:
  assumes "relB W b b'" and "changed (segments b) (segments b') \<subseteq> W"
  shows "b = b'"
proof -
  have "segments b = segments b'"
    using assms by (auto simp: relB_def intro: relS_changed_eq)
  then show ?thesis
    using assms(1) by (simp add: relB_def)
qed

lemma updateSegments_fixpoint:
  assumes "updateSegments n b = Some b1"
  shows "updateSegments n b1 = Some b1"
proof -
  have run: "layoutRoots n (rootSegments b) b = Some b1"
    using assms by (simp add: updateSegments_def)
  have sh: "relB {} b b1"
    using run by (rule layoutRoots_shape)
  from layoutRoots_det [OF sh run] obtain b2
    where b2: "layoutRoots n (rootSegments b) b1 = Some b2"
      and r: "relB ({} \<union> changed (segments b1) (segments b2)) b1 b2"
    by auto
  have "b1 = b2"
    using r by (rule relB_eq) simp
  then show ?thesis
    using b2 relB_rootSegments [OF sh] by (simp add: updateSegments_def)
qed

subsection \<open>The update returns when the connections are ranked\<close>

lemma rankedBy_child:
  "rankedBy rank b \<Longrightarrow> map_of (connections b) p = Some cs \<Longrightarrow> c \<in> set cs \<Longrightarrow> rank c < rank p"
  by (auto simp: rankedBy_def list_all_iff dest!: map_of_SomeD)

lemma rankedBy_relB: "relB W b b' \<Longrightarrow> rankedBy rank b \<Longrightarrow> rankedBy rank b'"
  by (simp add: relB_def rankedBy_def)

lemma updateChildren_returns:
  assumes IH: "\<And>c b. rankedBy rank b \<Longrightarrow> rank c < n \<Longrightarrow> \<exists>r. updateChildSegments n c b = Some r"
  shows "rankedBy rank b \<Longrightarrow> \<forall>c \<in> set cs. rank c < n \<Longrightarrow> \<exists>r. updateChildren n p cs b = Some r"
proof (induction cs arbitrary: b)
  case Nil
  then show ?case by simp
next
  case (Cons c cs)
  show ?case
  proof (cases "getSegment b c = None \<or> getSegment b p = None")
    case True
    then show ?thesis
      using Cons.IH [of b] Cons.prems by (auto split: option.splits)
  next
    case False
    then obtain cseg pseg where s: "getSegment b c = Some cseg" "getSegment b p = Some pseg"
      by auto
    let ?b2 = "modifySegment c (setStart (getEnd pseg)) b"
    have rk2: "rankedBy rank ?b2"
      using relB_modify_self Cons.prems(1) by (rule rankedBy_relB)
    from IH [OF rk2, of c] Cons.prems(2)
    obtain b3 where b3: "updateChildSegments n c ?b2 = Some b3"
      by auto
    have "rankedBy rank b3"
      using updateChildSegments_shape [OF b3] rk2 by (rule rankedBy_relB)
    from Cons.IH [OF this] Cons.prems(2)
    obtain r where "updateChildren n p cs b3 = Some r"
      by auto
    then show ?thesis using s b3 by simp
  qed
qed

lemma updateChildSegments_returns:
  "rankedBy rank b \<Longrightarrow> rank p < n \<Longrightarrow> \<exists>r. updateChildSegments n p b = Some r"
proof (induction n arbitrary: p b)
  case 0
  then show ?case by simp
next
  case (Suc n)
  show ?case
  proof (cases "map_of (connections b) p = None \<or> getSegment b p = None")
    case True
    then show ?thesis by (auto split: option.splits)
  next
    case False
    then obtain cs pseg where s: "map_of (connections b) p = Some cs" "getSegment b p = Some pseg"
      by auto
    have "\<forall>c \<in> set cs. rank c < n"
      using rankedBy_child [OF Suc.prems(1) s(1)] Suc.prems(2) by fastforce
    from updateChildren_returns [OF Suc.IH Suc.prems(1) this]
    show ?thesis using s by simp
  qed
qed

lemma layoutRoots_returns:
  "rankedBy rank b \<Longrightarrow> \<forall>c \<in> set roots. rank c < n \<Longrightarrow> \<exists>r. layoutRoots n roots b = Some r"
proof (induction roots arbitrary: b)
  case Nil
  then show ?case by simp
next
  case (Cons root roots)
  let ?b2 = "modifySegment root (setStart (basePosition b)) b"
  have rk2: "rankedBy rank ?b2"
    using relB_modify_self Cons.prems(1) by (rule rankedBy_relB)
  from updateChildSegments_returns [OF rk2, of root n] Cons.prems(2)
  obtain b3 where b3: "updateChildSegments n root ?b2 = Some b3"
    by auto
  have "rankedBy rank b3"
    using updateChildSegments_shape [OF b3] rk2 by (rule rankedBy_relB)
  from Cons.IH [OF this] Cons.prems(2)
  obtain r where "layoutRoots n roots b3 = Some r"
    by auto
  then show ?case using b3 by simp
qed

lemma updateSegments_returns:
  assumes "rankedBy rank b" and "\<forall>name \<in> set (getSegmentNames b). rank name < n"
  shows "\<exists>b1. updateSegments n b = Some b1"
  unfolding updateSegments_def
  using assms by (intro layoutRoots_returns) (auto simp: rootSegments_def)

subsection \<open>A larger recursion bound does not change the result\<close>

lemma updateChildren_fuel:
  assumes IH: "\<And>c b r. updateChildSegments n c b = Some r \<Longrightarrow> updateChildSegments (Suc n) c b = Some r"
  shows "updateChildren n p cs b = Some r \<Longrightarrow> updateChildren (Suc n) p cs b = Some r"
proof (induction cs arbitrary: b)
  case Nil
  then show ?case by simp
next
  case (Cons c cs)
  show ?case
  proof (cases "getSegment b c = None \<or> getSegment b p = None")
    case True
    then have "updateChildren n p cs b = Some r"
      using Cons.prems by (auto split: option.splits)
    then have "updateChildren (Suc n) p cs b = Some r"
      by (rule Cons.IH)
    then show ?thesis using True by (auto split: option.splits)
  next
    case False
    then obtain cseg pseg where s: "getSegment b c = Some cseg" "getSegment b p = Some pseg"
      by auto
    let ?b2 = "modifySegment c (setStart (getEnd pseg)) b"
    from Cons.prems s obtain b3 where b3: "updateChildSegments n c ?b2 = Some b3"
      and rest: "updateChildren n p cs b3 = Some r"
      by (auto split: option.splits)
    have "updateChildSegments (Suc n) c ?b2 = Some b3"
      using b3 by (rule IH)
    moreover have "updateChildren (Suc n) p cs b3 = Some r"
      using rest by (rule Cons.IH)
    ultimately show ?thesis
      using s by (simp del: updateChildSegments.simps)
  qed
qed

lemma updateChildSegments_fuel_Suc:
  "updateChildSegments n p b = Some r \<Longrightarrow> updateChildSegments (Suc n) p b = Some r"
proof (induction n arbitrary: p b r)
  case 0
  then show ?case by simp
next
  case (Suc n)
  show ?case
  proof (cases "map_of (connections b) p = None \<or> getSegment b p = None")
    case True
    then show ?thesis using Suc.prems by (auto split: option.splits)
  next
    case False
    then obtain cs pseg where s: "map_of (connections b) p = Some cs" "getSegment b p = Some pseg"
      by auto
    then have "updateChildren n p cs b = Some r"
      using Suc.prems by simp
    then have "updateChildren (Suc n) p cs b = Some r"
      using Suc.IH by (rule updateChildren_fuel [rotated])
    then show ?thesis
      using s by (simp del: updateChildren.simps)
  qed
qed

lemma layoutRoots_fuel_Suc:
  "layoutRoots n roots b = Some r \<Longrightarrow> layoutRoots (Suc n) roots b = Some r"
proof (induction roots arbitrary: b)
  case Nil
  then show ?case by simp
next
  case (Cons root roots)
  let ?b2 = "modifySegment root (setStart (basePosition b)) b"
  from Cons.prems obtain b3 where b3: "updateChildSegments n root ?b2 = Some b3"
    and rest: "layoutRoots n roots b3 = Some r"
    by (auto split: option.splits)
  have "updateChildSegments (Suc n) root ?b2 = Some b3"
    using b3 by (rule updateChildSegments_fuel_Suc)
  moreover have "layoutRoots (Suc n) roots b3 = Some r"
    using rest by (rule Cons.IH)
  ultimately show ?case
    by (simp del: updateChildSegments.simps)
qed

lemma updateSegments_fuel:
  "updateSegments n b = Some r \<Longrightarrow> updateSegments (n + k) b = Some r"
proof (induction k)
  case 0
  then show ?case by simp
next
  case (Suc k)
  then show ?case
    by (simp add: updateSegments_def layoutRoots_fuel_Suc)
qed

lemma rotate_armSeg: "rotate armSeg pi = (False, armSeg\<lparr> angle := pi / 2 \<rparr>)"
proof -
  have n: "normalizeAngle pi = pi"
    by (rule normalizeAngle_id) simp_all
  have ineq: "\<not> pi \<le> pi / 2" "\<not> pi \<le> 0" "pi / 2 \<noteq> pi"
    by (insert pi_gt_zero) linarith+
  have "clampAngle armSeg pi = pi / 2"
    by (simp add: clampAngle_def n armSeg_def Let_def min_def max_def ineq)
  then show ?thesis
    using ineq by (simp add: rotate_def rotateTo_def Let_def armSeg_def)
qed

lemma updateSegments_looseBody: "updateSegments 2 looseBody = Some laidOutBody"
  by (simp add: updateSegments_def rootSegments_def getSegmentNames_def isChild_def looseBody_def
      numeral_2_eq_2 modifySegment_def getSegment_def setStart_def getEnd_def armSeg_def handSeg_def
      laidOutBody_def vec_def)

lemma edge_before: "edgeHolds (withArmAndHand base ground others conns) ''arm'' ''hand''"
  by (simp add: edgeHolds_def withArmAndHand_def getSegment_def armSeg_def handSeg_def
      veq_def getEnd_def vec_def EPSILON_def)

lemma rotate_withArmAndHand:
  "rotateSegment n ''arm'' pi (withArmAndHand base ground others conns)
     = Some (False, modifySegment ''arm'' (\<lambda>_. armSeg\<lparr> angle := pi / 2 \<rparr>)
                      (withArmAndHand base ground others conns))"
  by (simp add: rotateSegment_def withArmAndHand_def getSegment_def rotate_armSeg)

lemma edge_after:
  "\<not> edgeHolds (modifySegment ''arm'' (\<lambda>_. armSeg\<lparr> angle := pi / 2 \<rparr>)
                      (withArmAndHand base ground others conns)) ''arm'' ''hand''"
  by (simp add: edgeHolds_def withArmAndHand_def modifySegment_def getSegment_def armSeg_def
      handSeg_def veq_def getEnd_def vec_def EPSILON_def)

section \<open>Facts about the segments that touch a circle\<close>

lemma touching_loop_filter:
  "getSegmentsTouchingObject_loop b object xs
     = map fst (filter (\<lambda>(name, segment). isEndPoint b name \<and> touchesObject object segment) xs)"
  by (induction xs) (simp_all split: prod.splits)

lemma touching_loop_set:
  "set (getSegmentsTouchingObject_loop b object xs)
     = {name. \<exists>segment. (name, segment) \<in> set xs \<and> isEndPoint b name \<and> touchesObject object segment}"
  unfolding touching_loop_filter by force

lemma touching_loop_distinct:
  "distinct (map fst xs) \<Longrightarrow> distinct (getSegmentsTouchingObject_loop b object xs)"
  unfolding touching_loop_filter by (rule distinct_map_filter)

lemma touching_loop_length:
  "List.length (getSegmentsTouchingObject_loop b object xs) \<le> List.length xs"
  unfolding touching_loop_filter by simp

lemma getSegmentsTouchingObject_set:
  assumes "distinct (map fst (segments b))"
  shows "set (getSegmentsTouchingObject b object) = touchingLeaves b object"
  using assms
  by (auto simp: getSegmentsTouchingObject_def touching_loop_set touchingLeaves_def getSegment_def
      dest: map_of_SomeD)

lemma getSegmentsTouchingObject_card:
  assumes "distinct (map fst (segments b))"
  shows "List.length (getSegmentsTouchingObject b object) = card (touchingLeaves b object)"
proof -
  have "distinct (getSegmentsTouchingObject b object)"
    using assms by (simp add: getSegmentsTouchingObject_def touching_loop_distinct)
  then show ?thesis
    using getSegmentsTouchingObject_set [OF assms, of object] by (metis distinct_card)
qed

lemma size_t_of_int_nonneg: "0 \<le> i \<Longrightarrow> i < 2 ^ 31 \<Longrightarrow> size_t_of_int i = nat i"
  by (simp add: size_t_of_int_def)

lemma getSegmentsTouchingObject_jointBody: "getSegmentsTouchingObject jointBody ball = [''hand'']"
  by (simp add: getSegmentsTouchingObject_def jointBody_def isEndPoint_def touchesObject_def
      contains_def distanceSquared_def lengthSquared_def vsub_def getEnd_def handSeg_def ball_def vec_def)

section \<open>Facts about planning\<close>

lemma sqrt_162500_bounds: "400 \<le> sqrt 162500 \<and> sqrt 162500 < 405"
proof
  show "400 \<le> sqrt 162500"
    by (rule real_le_rsqrt) simp
  show "sqrt 162500 < 405"
    by (rule real_less_lsqrt) simp_all
qed

lemma magnitude_example: "magnitude (vsub (vec 500 350) (vec 100 400)) = sqrt 162500"
  by (simp add: magnitude_def vlength_def vsub_def vec_def)

lemma walk_steps_example: "static_cast_int_quotient (sqrt 162500 - 50) 5 = Some 70"
proof -
  define q where "q = (sqrt 162500 - 50) / 5"
  have b: "70 \<le> q" "q < 71"
    using sqrt_162500_bounds by (simp_all add: q_def)
  then have "\<lfloor>q\<rfloor> = 70" by (simp add: floor_eq_iff)
  then have "trunc q = 70" using b by (simp add: trunc_def)
  moreover have "- (2 ^ 31) - 1 < q" "q < 2 ^ 31" using b by simp_all
  ultimately show ?thesis
    by (simp add: static_cast_int_quotient_def q_def [symmetric])
qed

lemma reachMoves_type: "list_all (\<lambda>m. type m = REACH) (reachMoves p body names)"
  by (induction names) (simp_all add: reachMove_def Let_def split: option.splits)

lemma reachMoves_length: "List.length (reachMoves p body names) \<le> List.length names"
  by (induction names) (simp_all add: Let_def split: option.splits)

section \<open>Facts about the execution of moves\<close>

lemma moveRoots_returns:
  "rankedBy rank b \<Longrightarrow> \<forall>c \<in> set names. rank c < n \<Longrightarrow> \<exists>r. moveRoots n d names b = Some r"
proof (induction names arbitrary: b)
  case Nil
  then show ?case by simp
next
  case (Cons name names)
  show ?case
  proof (cases "isChild b name")
    case True
    then show ?thesis using Cons.IH [of b] Cons.prems by simp
  next
    case False
    let ?b2 = "modifySegment name (\<lambda>s. setStart (vadd (start s) d) s) b"
    have rk2: "rankedBy rank ?b2"
      using Cons.prems(1) by (simp add: rankedBy_def other_modifySegment)
    from updateChildSegments_returns [OF rk2, of name n] Cons.prems(2)
    obtain b3 where b3: "updateChildSegments n name ?b2 = Some b3"
      by auto
    have "rankedBy rank b3"
      using updateChildSegments_shape [OF b3] rk2 by (rule rankedBy_relB)
    from Cons.IH [OF this] Cons.prems(2)
    obtain r where "moveRoots n d names b3 = Some r"
      by auto
    then show ?thesis using False b3 by simp
  qed
qed

lemma moveBaseTo_returns:
  assumes "rankedBy rank b" and "\<forall>name \<in> set (getSegmentNames b). rank name < n"
  shows "\<exists>r. moveBaseTo n newBase b = Some r"
proof -
  let ?b' = "b\<lparr> basePosition := newBase \<rparr>"
  have "rankedBy rank ?b'"
    using assms(1) by (simp add: rankedBy_def)
  moreover have "\<forall>c \<in> set (getSegmentNames ?b'). rank c < n"
    using assms(2) by (simp add: getSegmentNames_def)
  ultimately show ?thesis
    unfolding moveBaseTo_def Let_def by (rule moveRoots_returns)
qed

lemma getSegment_name: "getSegment b name = Some s \<Longrightarrow> name \<in> set (getSegmentNames b)"
  unfolding getSegment_def getSegmentNames_def
  by (metis map_of_SomeD fst_conv image_eqI set_map)

lemma rotateSegment_returns:
  assumes "rankedBy rank b" and "\<forall>name \<in> set (getSegmentNames b). rank name < n"
  shows "\<exists>res. rotateSegment n name deltaAngle b = Some res"
proof (cases "getSegment b name")
  case None
  then have "rotateSegment n name deltaAngle b = Some (False, b)"
    by (simp add: rotateSegment_def)
  then show ?thesis by blast
next
  case (Some segment)
  obtain success segment' where r: "rotate segment deltaAngle = (success, segment')"
    by (cases "rotate segment deltaAngle")
  let ?b' = "modifySegment name (\<lambda>_. segment') b"
  have "rankedBy rank ?b'"
    using assms(1) by (simp add: rankedBy_def other_modifySegment)
  moreover have "rank name < n"
    using assms(2) getSegment_name [OF Some] by simp
  ultimately obtain b'' where "updateChildSegments n name ?b' = Some b''"
    using updateChildSegments_returns by blast
  then have "rotateSegment n name deltaAngle b
      = (if success then Some (success, b'') else Some (success, ?b'))"
    using Some r by (simp add: rotateSegment_def)
  then show ?thesis by (cases success) auto
qed

lemma executeNextMove_empty:
  "plannedMoves w = [] \<Longrightarrow> executeNextMove n target w body = Inr (False, w, body)"
  by (simp add: executeNextMove_def isSequenceComplete_def)

lemma plannedMoves_logProgress: "plannedMoves (logProgress w) = plannedMoves w"
  by (simp add: logProgress_def)

lemma executeNextMove_pops:
  assumes "executeNextMove n target w body = Inr (ok, w', body')" and "plannedMoves w \<noteq> []"
  shows "plannedMoves w' = tl (plannedMoves w)"
proof -
  obtain m rest where q: "plannedMoves w = m # rest"
    using assms(2) by (cases "plannedMoves w") auto
  let ?w1 = "w\<lparr> plannedMoves := rest \<rparr>"
  show ?thesis
  proof (cases "type m")
    case WALK
    then obtain s b' where "executeWalkMove n m ?w1 body = Inr (s, b')" "w' = logProgress ?w1"
      using assms(1) q
      by (simp add: executeNextMove_def isSequenceComplete_def Let_def split: sum.splits prod.splits)
    then show ?thesis using q by (simp add: plannedMoves_logProgress)
  next
    case REACH
    then obtain s b' where "executeReachMove n m ?w1 body = Inr (s, b')" "w' = logProgress ?w1"
      using assms(1) q
      by (simp add: executeNextMove_def isSequenceComplete_def Let_def split: sum.splits prod.splits)
    then show ?thesis using q by (simp add: plannedMoves_logProgress)
  next
    case GRAB
    then have "w' = logProgress (?w1\<lparr> objectCaught := True \<rparr>) \<or> w' = logProgress ?w1"
      using assms(1) q
      by (simp add: executeNextMove_def isSequenceComplete_def Let_def split: option.splits if_splits)
    then show ?thesis using q by (auto simp: plannedMoves_logProgress)
  qed
qed

lemma executeNextMove_gate:
  assumes "plannedMoves w = m # rest" and "type m = WALK"
    and "\<not> hasMinimumGroundContacts body (minGroundContacts w)"
  shows "executeNextMove n target w body = Inr (False, logProgress (w\<lparr> plannedMoves := rest \<rparr>), body)"
  using assms
  by (simp add: executeNextMove_def isSequenceComplete_def Let_def executeWalkMove_def)

lemma executeNextMove_returns:
  assumes "rankedBy rank body" and "\<forall>name \<in> set (getSegmentNames body). rank name < n"
    and "list_all (\<lambda>m. type m = GRAB \<longrightarrow> target \<noteq> None) (plannedMoves w)"
    and "list_all (\<lambda>m. type m = REACH \<longrightarrow> rotationAmount m \<noteq> None) (plannedMoves w)"
  shows "\<exists>res. executeNextMove n target w body = Inr res"
proof (cases "plannedMoves w")
  case Nil
  then have "executeNextMove n target w body = Inr (False, w, body)"
    by (rule executeNextMove_empty)
  then show ?thesis by blast
next
  case (Cons m rest)
  show ?thesis
  proof (cases "type m")
    case WALK
    obtain r where "moveBaseTo n (Move.position m) body = Some r"
      using moveBaseTo_returns [OF assms(1,2)] by blast
    then have "executeNextMove n target w body
        = (if \<not> hasMinimumGroundContacts body (minGroundContacts w)
           then Inr (False, logProgress (w\<lparr> plannedMoves := rest \<rparr>), body)
           else Inr (True, logProgress (w\<lparr> plannedMoves := rest \<rparr>), r))"
      using Cons WALK
      by (simp add: executeNextMove_def isSequenceComplete_def Let_def executeWalkMove_def)
    then show ?thesis
      by (cases "hasMinimumGroundContacts body (minGroundContacts w)") auto
  next
    case REACH
    then obtain a where a: "rotationAmount m = Some a"
      using assms(4) Cons by auto
    obtain res where "rotateSegment n (segmentName m) a body = Some res"
      using rotateSegment_returns [OF assms(1,2), of "segmentName m" a] by blast
    then obtain ok r where "rotateSegment n (segmentName m) a body = Some (ok, r)"
      by (cases res) simp
    then have "executeNextMove n target w body
        = (if \<not> hasMinimumGroundContacts body (minGroundContacts w)
           then Inr (False, logProgress (w\<lparr> plannedMoves := rest \<rparr>), body)
           else case getSegment body (segmentName m) of
                  None \<Rightarrow> Inr (False, logProgress (w\<lparr> plannedMoves := rest \<rparr>), body)
                | Some segment \<Rightarrow> Inr (ok, logProgress (w\<lparr> plannedMoves := rest \<rparr>), r))"
      using Cons REACH a
      by (simp add: executeNextMove_def isSequenceComplete_def Let_def executeReachMove_def
          split: option.splits)
    then show ?thesis
      by (cases "hasMinimumGroundContacts body (minGroundContacts w)";
          cases "getSegment body (segmentName m)") auto
  next
    case GRAB
    then obtain object where "target = Some object"
      using assms(3) Cons by auto
    then have "executeNextMove n target w body
        = (if canReachObject body object (minObjectContacts w)
           then Inr (True, logProgress (w\<lparr> plannedMoves := rest, objectCaught := True \<rparr>), body)
           else Inr (False, logProgress (w\<lparr> plannedMoves := rest \<rparr>), body))"
      using Cons GRAB
      by (simp add: executeNextMove_def isSequenceComplete_def Let_def)
    then show ?thesis
      by (cases "canReachObject body object (minObjectContacts w)") auto
  qed
qed

lemma walkBody_contacts: "\<not> hasMinimumGroundContacts walkBody 2"
  by (simp add: hasMinimumGroundContacts_def countGroundContacts_def walkBody_def jointBody_def
      isStartContactingGround_def isEndContactingGround_def armSeg_def handSeg_def getEnd_def vec_def)

section \<open>Facts about the projectile\<close>

lemma reachable_flags:
  "reachable s \<Longrightarrow> (active s \<longrightarrow> \<not> hitTarget s \<and> \<not> hitGround s) \<and> \<not> (hitTarget s \<and> hitGround s)"
proof (induction rule: reachable.induct)
  case (reach_new snowballRadius g)
  then show ?case by (simp add: newSnowballStrategy_def)
next
  case (reach_plan s)
  then show ?case by (simp add: planSequence_snowball_def reset_def)
next
  case (reach_execute s body target ok s')
  then show ?case
    by (auto simp: executeNextMove_snowball_def throwSnowball_def Let_def
        split: if_splits option.splits)
next
  case (reach_prepare s p v)
  then show ?case by (simp add: prepareThrow_def)
next
  case (reach_throw s)
  then show ?case by (simp add: throwSnowball_def)
next
  case (reach_update s deltaTime body target)
  then show ?case
    by (simp add: update_def checkCollisions_def updatePhysics_def Let_def)
next
  case (reach_reset s)
  then show ?case by (simp add: reset_def)
qed

lemma updatePhysics_flags:
  "active (updatePhysics dt s) = active s" "hitTarget (updatePhysics dt s) = hitTarget s"
  "hitGround (updatePhysics dt s) = hitGround s"
  by (simp_all add: updatePhysics_def Let_def)

lemma droppedSnowball_reachable: "reachable droppedSnowball"
  unfolding droppedSnowball_def by (intro reach_throw reach_prepare reach_new)

lemma droppedSnowball_step:
  "updatePhysics 3 droppedSnowball
     = \<lparr> active = True, position = \<lparr> x = Fin 100, y = Fin (2191 / 5) \<rparr>,
         velocity = \<lparr> x = Fin 0, y = Fin (147 / 5) \<rparr>, gravity = 98 / 10, radius = 10,
         hitTarget = False, hitGround = False \<rparr>"
  by (simp add: updatePhysics_def droppedSnowball_def throwSnowball_def prepareThrow_def
      newSnowballStrategy_def dvec_of_def vec_def Let_def)

lemma aimVelocity_negative:
  assumes "dx / g < 0"
  shows "aimVelocity dx dy g = \<lparr> x = NaN, y = NaN \<rparr>"
proof -
  have g: "g \<noteq> 0" using assms by auto
  have "2 * dx / g < 0" using assms by simp
  then show ?thesis
    using g by (simp add: aimVelocity_def Let_def)
qed

section \<open>Claims about Vector2D and Segment\<close>

text \<open>
  Claim C10. Dividing a vector by the scalar zero is guarded: \<open>operator/\<close> with scalar 0
  returns the vector unchanged and \<open>operator/=\<close> with scalar 0 leaves both components
  unchanged, so no quotient by zero is ever formed.
\<close>

theorem vdiv_zero_unchanged:
  "vdiv u 0 = u \<and> vdiv_assign u 0 = u \<and> x (vdiv_assign u 0) = x u \<and> y (vdiv_assign u 0) = y u"
  by (simp add: vdiv_def vdiv_assign_def)

text \<open>
  Claim C4, as stated (idempotence for every range), fails: with \<open>minAngle = \<pi>\<close> and
  \<open>maxAngle = -\<pi>/2\<close> the angle \<open>\<pi>/8\<close> is snapped to the bound \<open>-\<pi>/2\<close>, whose
  normalised value \<open>3\<pi>/2\<close> lies inside the wrapping range and is returned by the second
  application.
\<close>

theorem clampAngle_not_idempotent:
  "clampAngle wrapSeg (clampAngle wrapSeg (pi / 8)) \<noteq> clampAngle wrapSeg (pi / 8)"
proof -
  have "3 * pi / 2 \<noteq> - (pi / 2)"
    using pi_gt_zero by linarith
  then show ?thesis
    by (simp add: clampAngle_wrapSeg_first clampAngle_wrapSeg_second)
qed

text \<open>
  Claim C4, amended: \<open>clampAngle\<close> is idempotent for every input angle whose normalised
  value is below the period \<open>2 * M_PI\<close>, for every range that does not wrap
  (\<open>minAngle \<le> maxAngle\<close>) and for every wrapping range whose bounds are themselves
  normalised angles (\<open>0 \<le> maxAngle\<close> and \<open>minAngle\<close> below the period). The normalised
  value is below the period for every input that is not negative; for a negative input
  the source adds the period to the remainder, and that sum of doubles can round to the
  period itself, which a second application normalises to 0. The statement holds for
  every positive period and every admitted rounding, hence for the doubles of the source.
\<close>

theorem clampAngle_idempotent:
  assumes "0 < period" and "roundsInto period fl"
    and "0 \<le> a \<or> normalizeAngleWith period fl a < period"
    and "minAngle s \<le> maxAngle s \<or> (0 \<le> maxAngle s \<and> minAngle s < period)"
  shows "clampAngleWith period fl s (clampAngleWith period fl s a) = clampAngleWith period fl s a"
proof -
  define n where "n = normalizeAngleWith period fl a"
  have nr: "0 \<le> n" "n < period"
    using normalizeAngleWith_range [OF assms(1,2), of a]
      normalizeAngleWith_nonneg [OF assms(1), of a fl] assms(3)
    by (auto simp: n_def)
  have nn: "normalizeAngleWith period fl n = n"
    using nr by (rule normalizeAngleWith_id)
  show ?thesis
  proof (cases "minAngle s \<le> maxAngle s")
    case True
    define m where "m = normalizeAngleWith period fl (minAngle s)"
    define M where "M = normalizeAngleWith period fl (maxAngle s)"
    have mr: "0 \<le> m" "m \<le> period" "0 \<le> M" "M \<le> period"
      using normalizeAngleWith_range [OF assms(1,2), of "minAngle s"]
        normalizeAngleWith_range [OF assms(1,2), of "maxAngle s"]
      by (simp_all add: m_def M_def)
    have mid: "0 \<le> minAngle s \<Longrightarrow> minAngle s < period \<Longrightarrow> m = minAngle s"
      unfolding m_def by (rule normalizeAngleWith_id)
    have Mid: "0 \<le> maxAngle s \<Longrightarrow> maxAngle s < period \<Longrightarrow> M = maxAngle s"
      unfolding M_def by (rule normalizeAngleWith_id)
    have ca: "clampAngleWith period fl s a = min (max n (minAngle s)) (maxAngle s)"
      using True by (simp add: clampAngleWith_def n_def Let_def)
    consider (a) "clampAngleWith period fl s a = n"
      | (b) "clampAngleWith period fl s a = minAngle s" "n < minAngle s"
      | (c) "clampAngleWith period fl s a = maxAngle s" "maxAngle s < n"
      unfolding ca using True by (cases "n < minAngle s"; cases "maxAngle s < n") (auto simp: min_def max_def)
    then show ?thesis
    proof cases
      case a
      then show ?thesis
        using True by (simp add: clampAngleWith_def nn n_def [symmetric] Let_def)
    next
      case b
      then show ?thesis
        using True mr mid nr
        by (cases "minAngle s < period")
           (auto simp: clampAngleWith_def m_def [symmetric] Let_def min_def max_def)
    next
      case c
      then show ?thesis
        using True mr Mid nr
        by (cases "0 \<le> maxAngle s")
           (auto simp: clampAngleWith_def M_def [symmetric] Let_def min_def max_def)
    qed
  next
    case False
    with assms(4) have w: "0 \<le> maxAngle s" "minAngle s < period" "maxAngle s < minAngle s"
      by simp_all
    have mid: "normalizeAngleWith period fl (minAngle s) = minAngle s"
      using w by (intro normalizeAngleWith_id) simp_all
    have Mid: "normalizeAngleWith period fl (maxAngle s) = maxAngle s"
      using w by (intro normalizeAngleWith_id) simp_all
    have "(clampAngleWith period fl s a = n \<and> (minAngle s \<le> n \<or> n \<le> maxAngle s))
      \<or> clampAngleWith period fl s a = minAngle s \<or> clampAngleWith period fl s a = maxAngle s"
      using False unfolding clampAngleWith_def n_def [symmetric] Let_def
      by (cases "minAngle s \<le> n \<or> n \<le> maxAngle s") (simp_all del: min_less_iff_conj)
    then consider (a) "clampAngleWith period fl s a = n" "minAngle s \<le> n \<or> n \<le> maxAngle s"
      | (b) "clampAngleWith period fl s a = minAngle s" | (c) "clampAngleWith period fl s a = maxAngle s"
      by blast
    then show ?thesis
    proof cases
      case a
      then show ?thesis
        using False by (auto simp: clampAngleWith_def nn n_def [symmetric] Let_def)
    next
      case b
      then show ?thesis
        using False by (simp add: clampAngleWith_def mid Let_def)
    next
      case c
      then show ?thesis
        using False by (simp add: clampAngleWith_def Mid Let_def)
    qed
  qed
qed

theorem clampAngle_idempotent_witness:
  "0 < 2 * pi \<and> roundsInto (2 * pi) (\<lambda>v. v) \<and> (0 \<le> pi \<or> normalizeAngleWith (2 * pi) (\<lambda>v. v) pi < 2 * pi)
   \<and> (minAngle crossSeg \<le> maxAngle crossSeg \<or> (0 \<le> maxAngle crossSeg \<and> minAngle crossSeg < 2 * pi))
   \<and> clampAngle crossSeg (clampAngle crossSeg pi) = clampAngle crossSeg pi"
proof -
  have h1: "0 < 2 * pi" by simp
  have h2: "roundsInto (2 * pi) (\<lambda>v. v)" by (simp add: roundsInto_def)
  have h3: "0 \<le> pi \<or> normalizeAngleWith (2 * pi) (\<lambda>v. v) pi < 2 * pi" by simp
  have h4: "minAngle crossSeg \<le> maxAngle crossSeg \<or> (0 \<le> maxAngle crossSeg \<and> minAngle crossSeg < 2 * pi)"
    by (simp add: crossSeg_def)
  have "clampAngle crossSeg (clampAngle crossSeg pi) = clampAngle crossSeg pi"
    using clampAngle_idempotent [OF h1 h2 h3 h4] by (simp only: clampAngle_exact)
  then show ?thesis
    using h1 h2 h3 h4 by blast
qed

text \<open>
  Claim C9, as stated (every target outside \<open>[0, 2\<pi>)\<close> is reported as constrained),
  fails when the target is itself a bound that the clamp returns: with the range
  \<open>[-\<pi>, -\<pi>/2]\<close> the target \<open>-\<pi>/2\<close> is returned unchanged and \<open>rotateTo\<close>
  answers true.
\<close>

theorem rotateTo_unnormalized_accepted:
  "(- (pi / 2) < 0 \<or> 2 * pi \<le> - (pi / 2)) \<and> fst (rotateTo lowSeg (- (pi / 2)))"
proof -
  have n: "normalizeAngle (- (pi / 2)) = - (pi / 2) + 2 * pi"
    by (rule normalizeAngle_neg) simp_all
  have ineq: "- pi \<le> - (pi / 2)" "\<not> - (pi / 2) + 2 * pi \<le> - (pi / 2)"
     "\<not> - (pi / 2) + 2 * pi \<le> - pi" "\<not> pi \<le> 0"
    by (insert pi_gt_zero) linarith+
  have "clampAngle lowSeg (- (pi / 2)) = - (pi / 2)"
    by (simp add: clampAngle_def n lowSeg_def Let_def min_def max_def ineq)
  then show ?thesis
    by (simp add: rotateTo_def Let_def)
qed

text \<open>
  Claim C9, amended: for every target angle outside \<open>[0, 2\<pi>)\<close> that is neither
  \<open>minAngle\<close> nor \<open>maxAngle\<close>, \<open>rotateTo\<close> returns false, because the clamped angle is
  compared with the raw request; the stored angle is the clamped normalised value, which
  is the normalised target itself when that lies strictly inside the range.
\<close>

theorem rotateTo_unnormalized_constrained:
  assumes "t < 0 \<or> 2 * pi \<le> t" and "t \<noteq> minAngle s" and "t \<noteq> maxAngle s"
  shows "\<not> fst (rotateTo s t) \<and> angle (snd (rotateTo s t)) = clampAngle s t
         \<and> (minAngle s < normalizeAngle t \<and> normalizeAngle t < maxAngle s
              \<longrightarrow> angle (snd (rotateTo s t)) = normalizeAngle t)"
proof -
  have "normalizeAngle t \<noteq> t"
    using normalizeAngle_range [of t] assms(1) by auto
  then have "clampAngle s t \<noteq> t"
    using clampAngle_cases [of s t] assms(2,3) by auto
  moreover have "minAngle s < normalizeAngle t \<and> normalizeAngle t < maxAngle s
      \<longrightarrow> clampAngle s t = normalizeAngle t"
    by (simp add: clampAngle_def Let_def)
  ultimately show ?thesis
    by (simp add: rotateTo_def Let_def)
qed

theorem rotateTo_unnormalized_constrained_witness:
  "(- (pi / 2) < 0 \<or> 2 * pi \<le> - (pi / 2)) \<and> - (pi / 2) \<noteq> minAngle upperSeg
   \<and> - (pi / 2) \<noteq> maxAngle upperSeg
   \<and> \<not> fst (rotateTo upperSeg (- (pi / 2)))
   \<and> angle (snd (rotateTo upperSeg (- (pi / 2)))) = 3 * pi / 2"
proof -
  have h1: "- (pi / 2) < 0 \<or> 2 * pi \<le> - (pi / 2)" by simp
  have ne: "- (pi / 2) \<noteq> pi" "- (pi / 2) \<noteq> 2 * pi"
    by (insert pi_gt_zero) linarith+
  have h2: "- (pi / 2) \<noteq> minAngle upperSeg"
    using ne by (simp add: upperSeg_def)
  have h3: "- (pi / 2) \<noteq> maxAngle upperSeg"
    using ne by (simp add: upperSeg_def)
  have n: "normalizeAngle (- (pi / 2)) = - (pi / 2) + 2 * pi"
    by (rule normalizeAngle_neg) simp_all
  have e: "- (pi / 2) + 2 * pi = 3 * pi / 2" by simp
  have r: "minAngle upperSeg < normalizeAngle (- (pi / 2)) \<and> normalizeAngle (- (pi / 2)) < maxAngle upperSeg"
    unfolding n e by (simp add: upperSeg_def)
  show ?thesis
    using h1 h2 h3 r rotateTo_unnormalized_constrained [OF h1 h2 h3] n e by simp
qed

section \<open>Claims about Body\<close>

text \<open>
  Claim C1 says that the connection invariant holds after every rotate or move operation,
  also when the rotation was clamped. The source updates the children only when the
  rotation reports success, while \<open>Segment::rotateTo\<close> stores the clamped angle in either
  case. Evaluated on an arm limited to \<open>[0, \<pi>/2]\<close> with a hand at its end: rotating the arm
  by \<open>\<pi>\<close> returns false for every recursion bound, the arm points to \<open>\<pi>/2\<close> and the
  hand stays where the arm's end was. The same happens in every body that holds this arm
  and this hand among its segments.
\<close>

theorem rotateSegment_clamped_detaches:
  "jointBody = withArmAndHand (vec 0 0) 0 [] []
   \<and> connectionsHold jointBody
   \<and> (\<forall>n. rotateSegment n ''arm'' pi jointBody = Some (False, detachedBody))
   \<and> \<not> connectionsHold detachedBody
   \<and> (\<forall>n base ground others conns.
         edgeHolds (withArmAndHand base ground others conns) ''arm'' ''hand''
         \<and> (\<exists>b'. rotateSegment n ''arm'' pi (withArmAndHand base ground others conns) = Some (False, b')
                 \<and> \<not> edgeHolds b' ''arm'' ''hand'' \<and> \<not> connectionsHold b'))"
proof -
  have j: "jointBody = withArmAndHand (vec 0 0) 0 [] []"
    by (simp add: jointBody_def withArmAndHand_def)
  have d: "detachedBody = modifySegment ''arm'' (\<lambda>_. armSeg\<lparr> angle := pi / 2 \<rparr>)
                      (withArmAndHand (vec 0 0) 0 [] [])"
    by (simp add: detachedBody_def withArmAndHand_def modifySegment_def)
  have a: "connectionsHold jointBody"
    unfolding j using edge_before [of "vec 0 0" 0 "[]" "[]"]
    by (simp add: connectionsHold_def withArmAndHand_def)
  have b: "rotateSegment n ''arm'' pi jointBody = Some (False, detachedBody)" for n
    unfolding j d by (rule rotate_withArmAndHand)
  have g: "\<not> connectionsHold (modifySegment ''arm'' (\<lambda>_. armSeg\<lparr> angle := pi / 2 \<rparr>)
                      (withArmAndHand base ground others conns))" for base ground others conns
    using edge_after [of base ground others conns]
    by (simp add: connectionsHold_def withArmAndHand_def modifySegment_def)
  have c: "\<not> connectionsHold detachedBody"
    unfolding d by (rule g)
  have e: "edgeHolds (withArmAndHand base ground others conns) ''arm'' ''hand''
         \<and> (\<exists>b'. rotateSegment n ''arm'' pi (withArmAndHand base ground others conns) = Some (False, b')
                 \<and> \<not> edgeHolds b' ''arm'' ''hand'' \<and> \<not> connectionsHold b')"
    for n base ground others conns
    using edge_before rotate_withArmAndHand edge_after g by blast
  show ?thesis
    using j a b c e by blast
qed

text \<open>
  Claim C8. Whenever \<open>updateSegments\<close> returns, a second call on the result returns the
  very same body, so every segment has the same start and end both times. The result does
  not depend on the recursion bound once the call returns within it, and the call returns
  for every body whose connections are free of cycles (a rank decreases along every
  connection and the recursion bound exceeds the ranks).
\<close>

theorem updateSegments_idempotent:
  "(updateSegments n b = Some laid \<longrightarrow>
      (\<exists>again. updateSegments n laid = Some again
         \<and> getSegmentLines again = getSegmentLines laid \<and> again = laid)
      \<and> updateSegments (n + k) b = Some laid)
   \<and> (rankedBy rank b \<and> (\<forall>name \<in> set (getSegmentNames b). rank name < n) \<longrightarrow>
      (\<exists>laid. updateSegments n b = Some laid))"
  using updateSegments_fixpoint [of n b laid] updateSegments_returns [of rank b n]
    updateSegments_fuel [of n b laid k]
  by simp

theorem updateSegments_idempotent_witness:
  "updateSegments 2 looseBody = Some laidOutBody
   \<and> rankedBy armRank looseBody
   \<and> list_all (\<lambda>name. armRank name < 2) (getSegmentNames looseBody)
   \<and> updateSegments 2 laidOutBody = Some laidOutBody
   \<and> getSegmentLines laidOutBody = [(vec 2 3, vec 3 3), (vec 3 3, vec 4 3)]"
proof -
  have h1: "updateSegments 2 looseBody = Some laidOutBody"
    by (rule updateSegments_looseBody)
  have h2: "rankedBy armRank looseBody"
    by (simp add: rankedBy_def looseBody_def armRank_def)
  have h3: "list_all (\<lambda>name. armRank name < 2) (getSegmentNames looseBody)"
    by (simp add: getSegmentNames_def looseBody_def armRank_def)
  have l: "getSegmentLines laidOutBody = [(vec 2 3, vec 3 3), (vec 3 3, vec 4 3)]"
    by (simp add: getSegmentLines_def laidOutBody_def armSeg_def handSeg_def getEnd_def vec_def)
  show ?thesis
    using h1 h2 h3 l updateSegments_idempotent [where n = 2 and b = looseBody and laid = laidOutBody and rank = armRank and k = 0]
    by (simp add: list_all_iff)
qed

text \<open>
  Claim C5, as stated, fails for a negative \<open>minTouchingPoints\<close>: at least \<open>-1\<close> end point
  segments always touch, but the conversion to \<open>size_t\<close> turns \<open>-1\<close> into \<open>2^64 - 1\<close> and
  \<open>canReachObject\<close> returns false.
\<close>

theorem canReachObject_negative_threshold:
  "\<not> (canReachObject jointBody ball (- 1) \<longleftrightarrow> - 1 \<le> int (card (touchingLeaves jointBody ball)))"
proof -
  have "List.length (getSegmentsTouchingObject jointBody ball) \<le> 2"
    using touching_loop_length [of jointBody ball "segments jointBody"]
    by (simp add: getSegmentsTouchingObject_def jointBody_def)
  moreover have "size_t_of_int (- 1) = 18446744073709551615"
    by (simp add: size_t_of_int_def)
  ultimately have "\<not> canReachObject jointBody ball (- 1)"
    by (simp add: canReachObject_def)
  then show ?thesis by simp
qed

text \<open>
  Claim C5, amended: for every Body, every circle and every \<open>minTouchingPoints\<close> that is
  not negative, \<open>canReachObject\<close> returns true if and only if at least
  \<open>minTouchingPoints\<close> end point segments touch the circle (the end lies in the circle or
  the distance of the segment to the centre is at most the radius); segments with recorded
  children do not count. An end point segment is one without children, since
  \<open>connectSegment\<close> never records an empty vector of children.
\<close>

theorem canReachObject_threshold:
  assumes "distinct (map fst (segments b))" and "0 \<le> minTouchingPoints"
    and "minTouchingPoints < 2 ^ 31"
  shows "(canReachObject b object minTouchingPoints
            \<longleftrightarrow> minTouchingPoints \<le> int (card (touchingLeaves b object)))
         \<and> (list_all (\<lambda>(parent, children). children \<noteq> []) (connections b)
            \<longrightarrow> (\<forall>name. isEndPoint b name \<longleftrightarrow> childrenOf b name = []))"
proof -
  have "canReachObject b object minTouchingPoints
           \<longleftrightarrow> minTouchingPoints \<le> int (card (touchingLeaves b object))"
    using assms(2,3)
    by (simp add: canReachObject_def getSegmentsTouchingObject_card [OF assms(1)]
        size_t_of_int_nonneg nat_le_iff)
  moreover have "isEndPoint b name \<longleftrightarrow> childrenOf b name = []"
    if "list_all (\<lambda>(parent, children). children \<noteq> []) (connections b)" for name
    using that
    by (auto simp: isEndPoint_def childrenOf_def list_all_iff split: option.splits dest!: map_of_SomeD)
  ultimately show ?thesis by blast
qed

theorem canReachObject_threshold_witness:
  "distinct (map fst (segments jointBody))
   \<and> canReachObject jointBody ball 1 \<and> 1 \<le> int (card (touchingLeaves jointBody ball))
   \<and> \<not> canReachObject jointBody ball 2 \<and> \<not> 2 \<le> int (card (touchingLeaves jointBody ball))
   \<and> \<not> isEndPoint jointBody ''arm'' \<and> childrenOf jointBody ''arm'' = [''hand'']"
proof -
  have d: "distinct (map fst (segments jointBody))"
    by (simp add: jointBody_def)
  have c1: "canReachObject jointBody ball 1"
    by (simp add: canReachObject_def getSegmentsTouchingObject_jointBody size_t_of_int_def)
  have c2: "\<not> canReachObject jointBody ball 2"
    by (simp add: canReachObject_def getSegmentsTouchingObject_jointBody size_t_of_int_def)
  have e: "\<not> isEndPoint jointBody ''arm''" "childrenOf jointBody ''arm'' = [''hand'']"
    by (simp_all add: isEndPoint_def childrenOf_def jointBody_def)
  show ?thesis
    using d c1 c2 e canReachObject_threshold [OF d, of 1 ball] canReachObject_threshold [OF d, of 2 ball]
    by simp
qed

section \<open>Claims about WalkerStrategy\<close>

text \<open>
  Claim C3. With the body base at \<open>(100, 400)\<close>, the object at \<open>(500, 350)\<close>, the reach
  distance 50 of the source and \<open>walkSpeed = 5\<close>, \<open>planSequence\<close> plans exactly 70 walk
  moves, followed by the reach moves and then one grab move. (The source measures the
  Euclidean distance \<open>sqrt 162500\<close> and truncates \<open>(sqrt 162500 - 50) / 5\<close>, which is 70.)
\<close>

theorem planSequence_walk_count:
  assumes "basePosition body = vec 100 400" and "walkSpeed w = 5"
  shows "\<exists>w' walks.
           planSequence (vec 500 350) body w = Inr w'
           \<and> plannedMoves w' = walks @ reachMoves (vec 500 350) body reachingSegments @ [grabMove]
           \<and> List.length walks = 70 \<and> list_all (\<lambda>m. type m = WALK) walks
           \<and> list_all (\<lambda>m. type m = REACH) (reachMoves (vec 500 350) body reachingSegments)
           \<and> type grabMove = GRAB
           \<and> List.length (filter (\<lambda>m. type m = WALK) (plannedMoves w')) = 70"
proof -
  define stepVector where
    "stepVector = vmul (normalize (vsub (vec 500 350) (vec 100 400))) 5"
  define walks where
    "walks = map (\<lambda>i. walkMove (vadd (vec 100 400) (vmul stepVector (of_int (i + 1))))) [0 .. 69]"
  define reaches where "reaches = reachMoves (vec 500 350) body reachingSegments"
  define w1 where "w1 = w\<lparr> plannedMoves := [], objectCaught := False, currentMoveIndex := 0 \<rparr>"
  have pos: "\<not> sqrt 162500 - 50 \<le> 0"
    using sqrt_162500_bounds by simp
  have a: "addWalkingSequence (vec 500 350) body w1 = Inr (w1\<lparr> plannedMoves := walks \<rparr>)"
    using assms pos
    by (simp add: addWalkingSequence_def Let_def magnitude_example walk_steps_example w1_def
        walks_def stepVector_def)
  have p: "planSequence (vec 500 350) body w
             = Inr (addReachingSequence (vec 500 350) body (w1\<lparr> plannedMoves := walks \<rparr>))"
    using a by (simp add: planSequence_def w1_def Let_def)
  have q: "plannedMoves (addReachingSequence (vec 500 350) body (w1\<lparr> plannedMoves := walks \<rparr>))
             = walks @ reaches @ [grabMove]"
    by (simp add: addReachingSequence_def reaches_def)
  have l: "List.length walks = 70"
    by (simp add: walks_def)
  have tw: "list_all (\<lambda>m. type m = WALK) walks"
    by (simp add: walks_def list_all_iff walkMove_def)
  have tr: "list_all (\<lambda>m. type m = REACH) reaches"
    unfolding reaches_def by (rule reachMoves_type)
  have tg: "type grabMove = GRAB"
    by (simp add: grabMove_def)
  have fw: "filter (\<lambda>m. type m = WALK) walks = walks"
    using tw by (simp add: list_all_iff)
  have fr: "filter (\<lambda>m. type m = WALK) reaches = []"
    using tr by (auto simp: list_all_iff filter_empty_conv)
  have c: "List.length (filter (\<lambda>m. type m = WALK) (walks @ reaches @ [grabMove])) = 70"
    using fw fr tg l by simp
  show ?thesis
    using p q l tw tr tg c unfolding reaches_def by metis
qed

theorem planSequence_walk_count_witness:
  "basePosition walkBody = vec 100 400 \<and> walkSpeed walker0 = 5
   \<and> (\<exists>w'. planSequence (vec 500 350) walkBody walker0 = Inr w'
          \<and> List.length (filter (\<lambda>m. type m = WALK) (plannedMoves w')) = 70
          \<and> List.length (plannedMoves w') = 71)"
proof -
  have h1: "basePosition walkBody = vec 100 400"
    by (simp add: walkBody_def)
  have h2: "walkSpeed walker0 = 5"
    by (simp add: walker0_def)
  have r: "reachMoves (vec 500 350) walkBody reachingSegments = []"
    by (simp add: reachingSegments_def walkBody_def jointBody_def getSegment_def)
  from planSequence_walk_count [OF h1 h2]
  obtain w' walks where w: "planSequence (vec 500 350) walkBody walker0 = Inr w'"
    "plannedMoves w' = walks @ reachMoves (vec 500 350) walkBody reachingSegments @ [grabMove]"
    "List.length walks = 70"
    "List.length (filter (\<lambda>m. type m = WALK) (plannedMoves w')) = 70"
    by blast
  have "List.length (plannedMoves w') = 71"
    using w(2,3) r by simp
  then show ?thesis
    using h1 h2 w(1,4) by blast
qed

text \<open>
  Claim C7. On an empty queue \<open>executeNextMove\<close> returns false and leaves the strategy and
  the Body as they are. On a non-empty queue every call that returns has removed exactly
  the front move, whether the move succeeded or failed; in particular a walk move that the
  ground contact gate rejects returns false, leaves the Body unchanged and is consumed.
  The call returns whenever the connections are free of cycles (the recursion bound
  exceeding the ranks), the target is not null when a grab move is queued and every reach
  move carries its rotation, as all planned reach moves do.
\<close>

theorem executeNextMove_consumes_one:
  "(plannedMoves w = [] \<longrightarrow> executeNextMove n target w body = Inr (False, w, body))
   \<and> (plannedMoves w \<noteq> [] \<longrightarrow>
        (\<forall>ok w' body'. executeNextMove n target w body = Inr (ok, w', body')
           \<longrightarrow> plannedMoves w' = tl (plannedMoves w)))
   \<and> (plannedMoves w \<noteq> [] \<and> type (hd (plannedMoves w)) = WALK
        \<and> \<not> hasMinimumGroundContacts body (minGroundContacts w) \<longrightarrow>
        (\<exists>w'. executeNextMove n target w body = Inr (False, w', body)
           \<and> plannedMoves w' = tl (plannedMoves w)))
   \<and> (rankedBy rank body \<and> (\<forall>name \<in> set (getSegmentNames body). rank name < n)
        \<and> list_all (\<lambda>m. type m = GRAB \<longrightarrow> target \<noteq> None) (plannedMoves w)
        \<and> list_all (\<lambda>m. type m = REACH \<longrightarrow> rotationAmount m \<noteq> None) (plannedMoves w) \<longrightarrow>
        (\<exists>res. executeNextMove n target w body = Inr res))"
proof -
  have a: "plannedMoves w = [] \<longrightarrow> executeNextMove n target w body = Inr (False, w, body)"
    by (simp add: executeNextMove_empty)
  have b: "plannedMoves w \<noteq> [] \<longrightarrow>
        (\<forall>ok w' body'. executeNextMove n target w body = Inr (ok, w', body')
           \<longrightarrow> plannedMoves w' = tl (plannedMoves w))"
    using executeNextMove_pops by blast
  have c: "plannedMoves w \<noteq> [] \<and> type (hd (plannedMoves w)) = WALK
        \<and> \<not> hasMinimumGroundContacts body (minGroundContacts w) \<longrightarrow>
        (\<exists>w'. executeNextMove n target w body = Inr (False, w', body)
           \<and> plannedMoves w' = tl (plannedMoves w))"
  proof (cases "plannedMoves w")
    case Nil
    then show ?thesis by simp
  next
    case (Cons m rest)
    show ?thesis
    proof (intro impI, elim conjE)
      assume "type (hd (plannedMoves w)) = WALK"
        and g: "\<not> hasMinimumGroundContacts body (minGroundContacts w)"
      then have "type m = WALK" using Cons by simp
      from executeNextMove_gate [OF Cons this g, of n target]
      have "executeNextMove n target w body = Inr (False, logProgress (w\<lparr> plannedMoves := rest \<rparr>), body)
            \<and> plannedMoves (logProgress (w\<lparr> plannedMoves := rest \<rparr>)) = tl (plannedMoves w)"
        using Cons by (simp add: plannedMoves_logProgress)
      then show "\<exists>w'. executeNextMove n target w body = Inr (False, w', body)
           \<and> plannedMoves w' = tl (plannedMoves w)"
        by blast
    qed
  qed
  have d: "rankedBy rank body \<and> (\<forall>name \<in> set (getSegmentNames body). rank name < n)
        \<and> list_all (\<lambda>m. type m = GRAB \<longrightarrow> target \<noteq> None) (plannedMoves w)
        \<and> list_all (\<lambda>m. type m = REACH \<longrightarrow> rotationAmount m \<noteq> None) (plannedMoves w) \<longrightarrow>
        (\<exists>res. executeNextMove n target w body = Inr res)"
    using executeNextMove_returns [of rank body n target w] by blast
  show ?thesis
    by (intro conjI a b c d)
qed

theorem executeNextMove_consumes_one_witness:
  "plannedMoves walker0 = []
   \<and> executeNextMove 2 (Some ball) walker0 walkBody = Inr (False, walker0, walkBody)
   \<and> plannedMoves queuedWalker \<noteq> [] \<and> type (hd (plannedMoves queuedWalker)) = WALK
   \<and> \<not> hasMinimumGroundContacts walkBody (minGroundContacts queuedWalker)
   \<and> executeNextMove 2 (Some ball) queuedWalker walkBody
       = Inr (False, queuedWalker\<lparr> plannedMoves := [grabMove] \<rparr>, walkBody)
   \<and> rankedBy armRank walkBody
   \<and> list_all (\<lambda>name. armRank name < 2) (getSegmentNames walkBody)"
proof -
  have h1: "plannedMoves walker0 = []"
    by (simp add: walker0_def)
  have h2: "plannedMoves queuedWalker \<noteq> []" "type (hd (plannedMoves queuedWalker)) = WALK"
    by (simp_all add: queuedWalker_def walkMove_def)
  have h3: "\<not> hasMinimumGroundContacts walkBody (minGroundContacts queuedWalker)"
    using walkBody_contacts by (simp add: queuedWalker_def walker0_def)
  have h4: "rankedBy armRank walkBody"
    by (simp add: rankedBy_def walkBody_def jointBody_def armRank_def)
  have h5: "list_all (\<lambda>name. armRank name < 2) (getSegmentNames walkBody)"
    by (simp add: getSegmentNames_def walkBody_def jointBody_def armRank_def)
  have q: "plannedMoves queuedWalker = walkMove (vec 105 400) # [grabMove]"
    by (simp add: queuedWalker_def)
  have t: "type (walkMove (vec 105 400)) = WALK"
    by (simp add: walkMove_def)
  have "\<not> logger (queuedWalker\<lparr> plannedMoves := [grabMove] \<rparr>)"
    by (simp add: queuedWalker_def walker0_def)
  then have lp: "logProgress (queuedWalker\<lparr> plannedMoves := [grabMove] \<rparr>)
      = queuedWalker\<lparr> plannedMoves := [grabMove] \<rparr>"
    unfolding logProgress_def by simp
  have e: "executeNextMove 2 (Some ball) queuedWalker walkBody
       = Inr (False, queuedWalker\<lparr> plannedMoves := [grabMove] \<rparr>, walkBody)"
    using executeNextMove_gate [OF q t h3, of 2 "Some ball"] unfolding lp .
  have f: "executeNextMove 2 (Some ball) walker0 walkBody = Inr (False, walker0, walkBody)"
    using executeNextMove_consumes_one [of walker0 2 "Some ball" walkBody armRank] h1 by blast
  show ?thesis
    by (intro conjI h1 h2 h3 h4 h5 e f)
qed

section \<open>Claims about SnowballStrategy\<close>

text \<open>
  Claim C2 says that \<open>executeNextMove\<close> rejects the throw when \<open>dx / gravity \<le> 0\<close>. The
  source has no such test: with the target to the left of the body (\<open>dx = -50\<close>, gravity
  \<open>9.8\<close>) the call returns true, the strategy becomes active and both components of the
  stored velocity are NaN.
\<close>

theorem executeNextMove_snowball_degenerate_aim:
  "(x (center leftTarget) - x (basePosition walkBody)) / (98 / 10) \<le> 0
   \<and> executeNextMove_snowball (Some walkBody) (Some leftTarget) (newSnowballStrategy 10 (98 / 10))
       = Inr (True, nanSnowball)
   \<and> active nanSnowball \<and> x (velocity nanSnowball) = NaN \<and> y (velocity nanSnowball) = NaN"
proof -
  have d: "(x (center leftTarget) - x (basePosition walkBody)) / (98 / 10) < (0::real)"
    by (simp add: leftTarget_def walkBody_def vec_def)
  have v: "aimVelocity (x (center leftTarget) - x (basePosition walkBody))
             (y (center leftTarget) - (y (basePosition walkBody) - 50)) (98 / 10)
           = \<lparr> x = NaN, y = NaN \<rparr>"
    using d by (rule aimVelocity_negative)
  have e: "executeNextMove_snowball (Some walkBody) (Some leftTarget) (newSnowballStrategy 10 (98 / 10))
          = Inr (True, nanSnowball)"
    using v
    by (simp add: executeNextMove_snowball_def Let_def newSnowballStrategy_def dvec_of_def vec_def
        throwSnowball_def nanSnowball_def walkBody_def)
  have n: "active nanSnowball" "x (velocity nanSnowball) = NaN" "y (velocity nanSnowball) = NaN"
    by (simp_all add: nanSnowball_def)
  show ?thesis
    using d e n by simp
qed

text \<open>
  Claim C2, amended: \<open>executeNextMove\<close> never rejects a throw. From every idle state (not
  active, no hit flag) with a Body and a target it returns true and the strategy becomes
  active with both hit flags clear, whatever \<open>dx / gravity\<close> is; in every other state it
  returns false and changes nothing.
\<close>

theorem executeNextMove_snowball_always_throws:
  "(\<not> active s \<and> \<not> hitTarget s \<and> \<not> hitGround s \<longrightarrow>
      (\<exists>s'. executeNextMove_snowball (Some b) (Some t) s = Inr (True, s') \<and> active s'
            \<and> \<not> hitTarget s' \<and> \<not> hitGround s'))
   \<and> (active s \<or> hitTarget s \<or> hitGround s \<longrightarrow>
      executeNextMove_snowball body target s = Inr (False, s))"
  by (simp add: executeNextMove_snowball_def throwSnowball_def Let_def)

theorem executeNextMove_snowball_always_throws_witness:
  "\<not> active (newSnowballStrategy 10 (98 / 10)) \<and> \<not> hitTarget (newSnowballStrategy 10 (98 / 10))
   \<and> \<not> hitGround (newSnowballStrategy 10 (98 / 10))
   \<and> (\<exists>s'. executeNextMove_snowball (Some jointBody) (Some landingTarget) (newSnowballStrategy 10 (98 / 10))
               = Inr (True, s') \<and> active s')
   \<and> active nanSnowball
   \<and> executeNextMove_snowball (Some jointBody) (Some landingTarget) nanSnowball = Inr (False, nanSnowball)"
proof -
  let ?s = "newSnowballStrategy 10 (98 / 10)"
  have h: "\<not> active ?s \<and> \<not> hitTarget ?s \<and> \<not> hitGround ?s"
    by (simp add: newSnowballStrategy_def)
  have a: "active nanSnowball"
    by (simp add: nanSnowball_def)
  have t: "\<exists>s'. executeNextMove_snowball (Some jointBody) (Some landingTarget) ?s = Inr (True, s') \<and> active s'"
    using h executeNextMove_snowball_always_throws [of ?s jointBody landingTarget "Some jointBody" "Some landingTarget"]
    by blast
  have r: "executeNextMove_snowball (Some jointBody) (Some landingTarget) nanSnowball = Inr (False, nanSnowball)"
    using a executeNextMove_snowball_always_throws [of nanSnowball jointBody landingTarget "Some jointBody" "Some landingTarget"]
    by blast
  show ?thesis
    using h a t r by blast
qed

text \<open>
  Claim C6. In every reachable state the two hit flags are never both set. In a tick of
  \<open>update\<close> on an active strategy the ground test is made first on the integrated state:
  when it holds, \<open>hitGround\<close> is set, \<open>active\<close> is cleared and \<open>hitTarget\<close> stays false,
  also when the target test would hold as well; otherwise, when the target test holds,
  \<open>hitTarget\<close> is set and \<open>active\<close> is cleared; otherwise only the integration is applied.
  An inactive strategy is left unchanged.
\<close>

theorem update_ground_before_target:
  assumes "reachable s"
  shows "\<not> (hitGround s \<and> hitTarget s)
    \<and> (active s \<longrightarrow>
         (checkGroundCollision body (updatePhysics deltaTime s) \<longrightarrow>
            hitGround (update deltaTime body target s) \<and> \<not> hitTarget (update deltaTime body target s)
            \<and> \<not> active (update deltaTime body target s))
       \<and> (\<not> checkGroundCollision body (updatePhysics deltaTime s)
            \<and> checkTargetCollision target (updatePhysics deltaTime s) \<longrightarrow>
            hitTarget (update deltaTime body target s) \<and> \<not> hitGround (update deltaTime body target s)
            \<and> \<not> active (update deltaTime body target s))
       \<and> (\<not> checkGroundCollision body (updatePhysics deltaTime s)
            \<and> \<not> checkTargetCollision target (updatePhysics deltaTime s) \<longrightarrow>
            update deltaTime body target s = updatePhysics deltaTime s))
    \<and> (\<not> active s \<longrightarrow> update deltaTime body target s = s)"
proof -
  have f: "(active s \<longrightarrow> \<not> hitTarget s \<and> \<not> hitGround s) \<and> \<not> (hitTarget s \<and> hitGround s)"
    using assms by (rule reachable_flags)
  show ?thesis
    using f by (auto simp: update_def checkCollisions_def updatePhysics_flags)
qed

theorem update_ground_before_target_witness:
  "reachable droppedSnowball \<and> active droppedSnowball
   \<and> checkGroundCollision (Some walkBody) (updatePhysics 3 droppedSnowball)
   \<and> checkTargetCollision (Some landingTarget) (updatePhysics 3 droppedSnowball)
   \<and> hitGround (update 3 (Some walkBody) (Some landingTarget) droppedSnowball)
   \<and> \<not> hitTarget (update 3 (Some walkBody) (Some landingTarget) droppedSnowball)
   \<and> \<not> active (update 3 (Some walkBody) (Some landingTarget) droppedSnowball)"
proof -
  have a: "active droppedSnowball"
    by (simp add: droppedSnowball_def throwSnowball_def prepareThrow_def)
  have g: "checkGroundCollision (Some walkBody) (updatePhysics 3 droppedSnowball)"
    by (simp add: droppedSnowball_step checkGroundCollision_def dge_def walkBody_def)
  have t: "checkTargetCollision (Some landingTarget) (updatePhysics 3 droppedSnowball)"
    by (simp add: droppedSnowball_step checkTargetCollision_def dmagnitude_def dsub_def
        landingTarget_def vec_def)
  show ?thesis
    using droppedSnowball_reachable a g t
      update_ground_before_target [OF droppedSnowball_reachable, of "Some walkBody" 3 "Some landingTarget"]
    by blast
qed

end
